theory Spec2Isabelle
  imports Main
begin

section \<open>The work queue of \<^verbatim>\<open>numba/npyufunc/workqueue.c\<close>\<close>

subsection \<open>Values of the C program\<close>

text \<open>
  A C \<^verbatim>\<open>int\<close> is an \<^typ>\<open>int\<close>; the one place where the program computes with it
  beyond comparing and counting, the shift of the nap time, has its 32-bit wrap-around
  written out (\<open>wrap32\<close>). A \<^verbatim>\<open>void *\<close> is a natural number, 0 being the null pointer.
\<close>

type_synonym ptr = nat

definition NULL :: ptr where
  "NULL = 0"

definition wrap32 :: "int \<Rightarrow> int" where
  "wrap32 x = (x + 2 ^ 31) mod 2 ^ 32 - 2 ^ 31"

text \<open>
  Modelled from the spec: the header \<^verbatim>\<open>workqueue.h\<close> is not among the sources. It declares
  the four states of a slot and the type of the compare-and-swap function. A slot that
  \<^verbatim>\<open>memset\<close> has zeroed is Idle, so \<open>IDLE\<close> is 0; the others follow in the order of the
  cycle.
\<close>

definition IDLE :: int where "IDLE = 0"
definition READY :: int where "READY = 1"
definition RUNNING :: int where "RUNNING = 2"
definition DONE :: int where "DONE = 3"

text \<open>
  Modelled from the spec: a compare-and-swap function \<^verbatim>\<open>int cas(volatile int *ptr, int old,
  int val)\<close> is supplied by the host. Here it maps the integer that \<open>ptr\<close> points to,
  \<open>old\<close> and \<open>val\<close> to the value it returns and the integer it leaves behind. A valid
  provider is an atomic compare-and-exchange: it returns what it found and stores \<open>val\<close>
  exactly when it found \<open>old\<close>.
\<close>

type_synonym cas_function_t = "int \<Rightarrow> int \<Rightarrow> int \<Rightarrow> int \<times> int"

definition atomic_cas :: cas_function_t where
  "atomic_cas cur old val = (cur, if cur = old then val else cur)"

definition valid_cas :: "cas_function_t \<Rightarrow> bool" where
  "valid_cas c = (\<forall>cur old val. c cur old val = atomic_cas cur old val)"

subsection \<open>\<^verbatim>\<open>cas_wait\<close>\<close>

definition MAX_WAIT_TIME :: int where
  "MAX_WAIT_TIME = 20 * 1000"

text \<open>The end of one turn of the loop: \<^verbatim>\<open>timeout <<= 1\<close> and the cap.\<close>

definition next_timeout :: "int \<Rightarrow> int" where
  "next_timeout timeout =
     (let t = wrap32 (timeout * 2) in if t \<ge> MAX_WAIT_TIME then MAX_WAIT_TIME else t)"

text \<open>
  One turn of the loop of \<open>cas_wait\<close>, on the integer \<open>cur\<close> that \<open>ptr\<close> points to: either
  the function returns, or it naps for \<open>timeout\<close> and goes round again with the next
  timeout. The first component is the integer left behind.
\<close>

datatype turn = Return | Nap int int

fun cas_wait_turn :: "cas_function_t option \<Rightarrow> int \<Rightarrow> int \<Rightarrow> int \<Rightarrow> int \<Rightarrow> int \<times> turn" where
  "cas_wait_turn None old repl cur timeout = (cur, Nap timeout (next_timeout timeout))"
| "cas_wait_turn (Some c) old repl cur timeout =
     (case c cur old repl of
        (out, cur') \<Rightarrow>
          if out = old then (cur', Return) else (cur', Nap timeout (next_timeout timeout)))"

text \<open>
  The loop itself may run forever, so it is run for a number of turns. While the caller
  naps, the other threads run: \<open>env i\<close> is what they do to the integer during nap \<open>i\<close>
  (the identity when nobody else writes it). The wait ends \<open>Returned\<close>, or is still
  \<open>Spinning\<close> when the turns are used up; both carry the integer and the naps taken so far,
  \<open>Spinning\<close> also the timeout of the next nap.
\<close>

datatype wait = Returned int "int list" | Spinning int int "int list"

fun cas_wait_loop ::
  "nat \<Rightarrow> (nat \<Rightarrow> int \<Rightarrow> int) \<Rightarrow> cas_function_t option \<Rightarrow> int \<Rightarrow> int \<Rightarrow> int \<Rightarrow> int \<Rightarrow> int list \<Rightarrow> wait" where
  "cas_wait_loop 0 env cas old repl cur timeout naps = Spinning cur timeout naps"
| "cas_wait_loop (Suc n) env cas old repl cur timeout naps =
     (case cas_wait_turn cas old repl cur timeout of
        (cur', Return) \<Rightarrow> Returned cur' naps
      | (cur', Nap usec timeout') \<Rightarrow>
          cas_wait_loop n env cas old repl (env (length naps) cur') timeout' (naps @ [usec]))"

definition cas_wait ::
  "nat \<Rightarrow> (nat \<Rightarrow> int \<Rightarrow> int) \<Rightarrow> cas_function_t option \<Rightarrow> int \<Rightarrow> int \<Rightarrow> int \<Rightarrow> wait" where
  "cas_wait n env cas old repl cur = cas_wait_loop n env cas old repl cur 1 []"

fun returned :: "wait \<Rightarrow> bool" where
  "returned (Returned cur naps) = True"
| "returned (Spinning cur timeout naps) = False"

fun pointee :: "wait \<Rightarrow> int" where
  "pointee (Returned cur naps) = cur"
| "pointee (Spinning cur timeout naps) = cur"

fun naps_of :: "wait \<Rightarrow> int list" where
  "naps_of (Returned cur naps) = naps"
| "naps_of (Spinning cur timeout naps) = naps"

text \<open>
  The failed attempts of a call, counted without the loop: how many of its first \<open>n\<close>
  attempts fail before one succeeds. An attempt fails when no CAS function is installed,
  or when the CAS function returns something other than \<open>old\<close>; after a failed attempt
  the other threads run (\<open>env i\<close>, for the failed attempt number \<open>i\<close>, counted from 0) and
  the next attempt meets what they left.
\<close>

fun failed_attempts ::
  "nat \<Rightarrow> (nat \<Rightarrow> int \<Rightarrow> int) \<Rightarrow> cas_function_t option \<Rightarrow> int \<Rightarrow> int \<Rightarrow> int \<Rightarrow> nat \<Rightarrow> nat" where
  "failed_attempts 0 env c old repl cur i = 0"
| "failed_attempts (Suc n) env None old repl cur i =
     Suc (failed_attempts n env None old repl (env i cur) (Suc i))"
| "failed_attempts (Suc n) env (Some f) old repl cur i =
     (case f cur old repl of
        (out, cur') \<Rightarrow>
          if out = old then 0
          else Suc (failed_attempts n env (Some f) old repl (env i cur') (Suc i)))"

text \<open>What the other threads alone do to the integer during the first \<open>n\<close> naps.\<close>

fun others :: "(nat \<Rightarrow> int \<Rightarrow> int) \<Rightarrow> nat \<Rightarrow> int \<Rightarrow> int" where
  "others env 0 cur = cur"
| "others env (Suc n) cur = env n (others env n cur)"

text \<open>The nap time the spec gives for the attempt after \<open>i\<close> failed ones.\<close>

definition backoff :: "nat \<Rightarrow> int" where
  "backoff i = min (2 ^ i) 20000"

subsection \<open>Tasks, slots and the process\<close>

record Task =
  func :: ptr
  args :: ptr
  dims :: ptr
  steps :: ptr
  data :: ptr

record Queue =
  lock :: int
  task :: Task

text \<open>What \<^verbatim>\<open>memset(queues, 0, sz)\<close> leaves in every slot.\<close>

definition zero_Queue :: Queue where
  "zero_Queue = \<lparr>lock = 0, task = \<lparr>func = NULL, args = NULL, dims = NULL, steps = NULL, data = NULL\<rparr>\<rparr>"

text \<open>
  A pointer to a slot, \<^verbatim>\<open>&queues[i]\<close>, is the address of the array and the index. The
  heap maps the address of every allocated array to its slots; \<^verbatim>\<open>malloc\<close> adds a block and
  \<^verbatim>\<open>free\<close> removes it.
\<close>

type_synonym qref = "ptr \<times> nat"

text \<open>
  Where a worker thread stands in \<open>thread_worker\<close>: in the first \<open>cas_wait\<close> (with its
  timeout), about to call the task, or in the second \<open>cas_wait\<close>.
\<close>

datatype wpc = WaitReady int | CallTask | WaitDone int

text \<open>
  The static variables of the file, the heap, and the worker threads that run in the
  process, each with the slot it was given.
\<close>

record process =
  cas :: "cas_function_t option"
  queues :: ptr
  queue_count :: int
  queue_pivot :: int
  heap :: "ptr \<Rightarrow> Queue list option"
  threads :: "(qref \<times> wpc) list"

text \<open>The process before any call: the initialisers of the static variables.\<close>

definition startup :: process where
  "startup = \<lparr>cas = None, queues = NULL, queue_count = 0, queue_pivot = 0,
     heap = (\<lambda>a. None), threads = []\<rparr>"

text \<open>
  What C leaves undefined and a machine answers with a crash is an error here: a read or
  write through a pointer to no block, an index outside the block, a call of a null
  function pointer. A crash carries the process as it stood.
\<close>

datatype error = NullPointer | InvalidPointer | OutOfBounds | NullCall

datatype outcome = Ok process | Crash error process

definition load :: "process \<Rightarrow> qref \<Rightarrow> error + Queue" where
  "load p r =
     (case heap p (fst r) of
        None \<Rightarrow> Inl (if fst r = NULL then NullPointer else InvalidPointer)
      | Some qs \<Rightarrow> if snd r < length qs then Inr (qs ! snd r) else Inl OutOfBounds)"

definition store :: "process \<Rightarrow> qref \<Rightarrow> Queue \<Rightarrow> process" where
  "store p r q =
     (case heap p (fst r) of
        None \<Rightarrow> p
      | Some qs \<Rightarrow> p\<lparr>heap := (heap p)(fst r \<mapsto> qs[snd r := q])\<rparr>)"

definition set_cas :: "cas_function_t option \<Rightarrow> process \<Rightarrow> process" where
  "set_cas c p = p\<lparr>cas := c\<rparr>"

definition add_task :: "ptr \<Rightarrow> ptr \<Rightarrow> ptr \<Rightarrow> ptr \<Rightarrow> ptr \<Rightarrow> process \<Rightarrow> outcome" where
  "add_task fn a d s x p =
     (if queue_pivot p < 0 then Crash OutOfBounds p
      else
        (case load p (queues p, nat (queue_pivot p)) of
           Inl e \<Rightarrow> Crash e p
         | Inr queue \<Rightarrow>
             Ok ((store p (queues p, nat (queue_pivot p))
                    (queue\<lparr>task := \<lparr>func = fn, args = a, dims = d, steps = s, data = x\<rparr>\<rparr>))
                 \<lparr>queue_pivot :=
                    (if queue_pivot p + 1 = queue_count p then 0 else queue_pivot p + 1)\<rparr>)))"

text \<open>Several calls of \<open>add_task\<close> in a row, one for each task of the list.\<close>

fun add_tasks :: "Task list \<Rightarrow> process \<Rightarrow> outcome" where
  "add_tasks [] p = Ok p"
| "add_tasks (t # ts) p =
     (case add_task (func t) (args t) (dims t) (steps t) (data t) p of
        Ok p' \<Rightarrow> add_tasks ts p'
      | Crash e p' \<Rightarrow> Crash e p')"

text \<open>
  \<^verbatim>\<open>memset(queues, 0, sizeof(Queue) * n)\<close> on the block \<^verbatim>\<open>malloc\<close> has just returned: the
  block is in the heap from here on, with \<open>n\<close> zeroed slots. Through a null pointer the
  call is undefined in C, and what happens is not the program's to say: \<open>traps\<close> tells
  whether the machine stops the process at the write (it has nothing to stop at when
  there is nothing to write); if it does not, the call comes back and no block has been
  made.
\<close>

definition memset_zero :: "bool \<Rightarrow> ptr \<Rightarrow> nat \<Rightarrow> process \<Rightarrow> outcome" where
  "memset_zero traps m n p =
     (if m = NULL then (if traps \<and> 0 < n then Crash NullPointer p else Ok p)
      else Ok (p\<lparr>heap := (heap p)(m \<mapsto> replicate n zero_Queue)\<rparr>))"

text \<open>
  \<open>launch_threads\<close>. Three things are not the function's own: \<open>traps\<close>, as above, \<open>m\<close>,
  which is what \<^verbatim>\<open>malloc\<close> returns (\<open>NULL\<close> when it fails, else the address of a new
  block), and \<open>spawn i\<close>, which says whether \<open>numba_new_thread\<close> manages to start the
  thread of slot \<open>i\<close>. The function tests neither the pointer nor the result of
  \<open>numba_new_thread\<close>. A new thread stands at the top of \<open>thread_worker\<close>. The count is
  that of the host, not negative; for a negative one the size wraps round to a value no
  \<^verbatim>\<open>malloc\<close> can serve.
\<close>

definition launch_threads ::
  "bool \<Rightarrow> ptr \<Rightarrow> (nat \<Rightarrow> bool) \<Rightarrow> int \<Rightarrow> process \<Rightarrow> outcome" where
  "launch_threads traps m spawn count p =
     (if queues p = NULL then
        (case memset_zero traps m (nat count) (p\<lparr>queues := m\<rparr>) of
           Crash e p' \<Rightarrow> Crash e p'
         | Ok p' \<Rightarrow>
             Ok (p'\<lparr>queue_count := count,
                   threads := threads p' @
                     map (\<lambda>i. ((m, i), WaitReady 1)) (filter spawn [0..<nat count])\<rparr>))
      else Ok p)"

text \<open>
  \<open>reset_after_fork\<close>: \<^verbatim>\<open>free(queues); queues = NULL\<close>. \<^verbatim>\<open>free(NULL)\<close> does nothing;
  freeing what is not a block is an error.
\<close>

definition reset_after_fork :: "process \<Rightarrow> outcome" where
  "reset_after_fork p =
     (if queues p = NULL then Ok (p\<lparr>queues := NULL\<rparr>)
      else
        (case heap p (queues p) of
           None \<Rightarrow> Crash InvalidPointer p
         | Some qs \<Rightarrow> Ok (p\<lparr>heap := (heap p)(queues p := None), queues := NULL\<rparr>)))"

subsection \<open>The threads, one turn at a time\<close>

text \<open>
  One turn of \<open>cas_wait\<close> on the lock of the slot \<open>r\<close> points to. With no CAS function
  the pointer is not followed.
\<close>

definition cas_wait_at ::
  "process \<Rightarrow> qref \<Rightarrow> int \<Rightarrow> int \<Rightarrow> int \<Rightarrow> error + (process \<times> turn)" where
  "cas_wait_at p r old repl timeout =
     (case cas p of
        None \<Rightarrow> Inr (p, Nap timeout (next_timeout timeout))
      | Some c \<Rightarrow>
          (case load p r of
             Inl e \<Rightarrow> Inl e
           | Inr q \<Rightarrow>
               (case cas_wait_turn (Some c) old repl (lock q) timeout of
                  (l, t) \<Rightarrow> Inr (store p r (q\<lparr>lock := l\<rparr>), t))))"

text \<open>
  \<open>ready\<close> and \<open>synchronize\<close> are the same loop over the slots with different states:
  \<^verbatim>\<open>for (i = 0; i < queue_count; ++i) cas_wait(&queues[i].lock, old, repl)\<close>. The caller is
  either in the loop at index \<open>i\<close>, inside \<open>cas_wait\<close> with its timeout, or has returned.
\<close>

datatype sweep = Sweeping int int | Swept

definition sweep_turn :: "int \<Rightarrow> int \<Rightarrow> int \<Rightarrow> int \<Rightarrow> process \<Rightarrow> error + (process \<times> sweep)" where
  "sweep_turn old repl i timeout p =
     (if i < queue_count p then
        (case cas_wait_at p (queues p, nat i) old repl timeout of
           Inl e \<Rightarrow> Inl e
         | Inr (p', Return) \<Rightarrow> Inr (p', Sweeping (i + 1) 1)
         | Inr (p', Nap usec timeout') \<Rightarrow> Inr (p', Sweeping i timeout'))
      else Inr (p, Swept))"

definition ready :: "int \<Rightarrow> int \<Rightarrow> process \<Rightarrow> error + (process \<times> sweep)" where
  "ready = sweep_turn IDLE READY"

definition synchronize :: "int \<Rightarrow> int \<Rightarrow> process \<Rightarrow> error + (process \<times> sweep)" where
  "synchronize = sweep_turn DONE IDLE"

text \<open>
  One turn of \<open>thread_worker\<close> for the thread bound to slot \<open>r\<close>: a turn of one of its two
  waits, or the call of the task. The call is reported as the third component: the task
  as it is read from the slot, whose function is invoked with its four arguments.
\<close>

definition thread_worker :: "qref \<Rightarrow> wpc \<Rightarrow> process \<Rightarrow> error + (process \<times> wpc \<times> Task option)" where
  "thread_worker r pc p =
     (case pc of
        WaitReady timeout \<Rightarrow>
          (case cas_wait_at p r READY RUNNING timeout of
             Inl e \<Rightarrow> Inl e
           | Inr (p', Return) \<Rightarrow> Inr (p', CallTask, None)
           | Inr (p', Nap usec timeout') \<Rightarrow> Inr (p', WaitReady timeout', None))
      | CallTask \<Rightarrow>
          (case load p r of
             Inl e \<Rightarrow> Inl e
           | Inr q \<Rightarrow>
               if func (task q) = NULL then Inl NullCall
               else Inr (p, WaitDone 1, Some (task q)))
      | WaitDone timeout \<Rightarrow>
          (case cas_wait_at p r RUNNING DONE timeout of
             Inl e \<Rightarrow> Inl e
           | Inr (p', Return) \<Rightarrow> Inr (p', WaitReady 1, None)
           | Inr (p', Nap usec timeout') \<Rightarrow> Inr (p', WaitDone timeout', None)))"

subsection \<open>The driver and the workers together\<close>

text \<open>
  The driver is the one thread that calls the dispatcher: it works through a script of
  calls. Between two calls it is \<open>Between\<close>; inside \<open>ready\<close> or \<open>synchronize\<close> it stands in
  the loop. The system also keeps the list of the task calls made so far, each with the
  slot whose worker made it, and the crash if there was one.
\<close>

datatype call = AddTask Task | Ready | Synchronize

datatype dpc = Between | InReady int int | InSynchronize int int

record system =
  proc :: process
  dpc :: dpc
  script :: "call list"
  calls :: "(qref \<times> Task) list"
  fault :: "error option"

definition enter :: "process \<Rightarrow> call list \<Rightarrow> system" where
  "enter p cs = \<lparr>proc = p, dpc = Between, script = cs, calls = [], fault = None\<rparr>"

definition driver_step :: "system \<Rightarrow> system" where
  "driver_step s =
     (case dpc s of
        Between \<Rightarrow>
          (case script s of
             [] \<Rightarrow> s
           | AddTask t # cs \<Rightarrow>
               (case add_task (func t) (args t) (dims t) (steps t) (data t) (proc s) of
                  Ok p' \<Rightarrow> s\<lparr>proc := p', script := cs\<rparr>
                | Crash e p' \<Rightarrow> s\<lparr>proc := p', fault := Some e\<rparr>)
           | Ready # cs \<Rightarrow> s\<lparr>dpc := InReady 0 1, script := cs\<rparr>
           | Synchronize # cs \<Rightarrow> s\<lparr>dpc := InSynchronize 0 1, script := cs\<rparr>)
      | InReady i timeout \<Rightarrow>
          (case ready i timeout (proc s) of
             Inl e \<Rightarrow> s\<lparr>fault := Some e\<rparr>
           | Inr (p', Sweeping i' timeout') \<Rightarrow> s\<lparr>proc := p', dpc := InReady i' timeout'\<rparr>
           | Inr (p', Swept) \<Rightarrow> s\<lparr>proc := p', dpc := Between\<rparr>)
      | InSynchronize i timeout \<Rightarrow>
          (case synchronize i timeout (proc s) of
             Inl e \<Rightarrow> s\<lparr>fault := Some e\<rparr>
           | Inr (p', Sweeping i' timeout') \<Rightarrow> s\<lparr>proc := p', dpc := InSynchronize i' timeout'\<rparr>
           | Inr (p', Swept) \<Rightarrow> s\<lparr>proc := p', dpc := Between\<rparr>))"

definition worker_step :: "nat \<Rightarrow> system \<Rightarrow> system" where
  "worker_step k s =
     (if k < length (threads (proc s)) then
        (case threads (proc s) ! k of
           (r, pc) \<Rightarrow>
             (case thread_worker r pc (proc s) of
                Inl e \<Rightarrow> s\<lparr>fault := Some e\<rparr>
              | Inr (p', pc', c) \<Rightarrow>
                  s\<lparr>proc := p'\<lparr>threads := (threads p')[k := (r, pc')]\<rparr>,
                    calls := calls s @ (case c of None \<Rightarrow> [] | Some t \<Rightarrow> [(r, t)])\<rparr>))
      else s)"

text \<open>
  A schedule says which thread moves next; a crashed process moves no more. \<open>run\<close> is the
  execution under a schedule, so the reachable states are the \<open>run sched s\<close>.
\<close>

datatype tid = Driver | Worker nat

fun step :: "tid \<Rightarrow> system \<Rightarrow> system" where
  "step Driver s = (if fault s = None then driver_step s else s)"
| "step (Worker k) s = (if fault s = None then worker_step k s else s)"

fun run :: "tid list \<Rightarrow> system \<Rightarrow> system" where
  "run [] s = s"
| "run (t # ts) s = run ts (step t s)"

definition finished :: "system \<Rightarrow> bool" where
  "finished s = (fault s = None \<and> dpc s = Between \<and> script s = [])"

text \<open>The lock a slot pointer leads to, if it leads to one.\<close>

definition lock_at :: "process \<Rightarrow> qref \<Rightarrow> int option" where
  "lock_at p r = (case load p r of Inl e \<Rightarrow> None | Inr q \<Rightarrow> Some (lock q))"

definition task_at :: "process \<Rightarrow> qref \<Rightarrow> Task option" where
  "task_at p r = (case load p r of Inl e \<Rightarrow> None | Inr q \<Rightarrow> Some (task q))"

text \<open>The locks a slot shows along an execution, state by state.\<close>

fun locks_seen :: "qref \<Rightarrow> tid list \<Rightarrow> system \<Rightarrow> int option list" where
  "locks_seen r [] s = [lock_at (proc s) r]"
| "locks_seen r (t # ts) s = lock_at (proc s) r # locks_seen r ts (step t s)"

text \<open>The state that follows in the cycle Idle, Ready, Running, Done, Idle.\<close>

definition successor :: "int \<Rightarrow> int" where
  "successor v =
     (if v = IDLE then READY else if v = READY then RUNNING
      else if v = RUNNING then DONE else IDLE)"

subsection \<open>Notions for stating the properties of the threads\<close>

text \<open>The CAS function is either not installed or a valid one.\<close>

definition cas_ok :: "process \<Rightarrow> bool" where
  "cas_ok p = (case cas p of None \<Rightarrow> True | Some c \<Rightarrow> valid_cas c)"

text \<open>
  A lock either stays as it is or moves to the state that follows in the cycle.
\<close>

definition lock_move :: "int option \<Rightarrow> int option \<Rightarrow> bool" where
  "lock_move a b =
     (b = a \<or> (\<exists>v. a = Some v \<and> v \<in> {IDLE, READY, RUNNING, DONE} \<and> b = Some (successor v)))"

text \<open>The cycle, started at Idle.\<close>

definition cycle :: "nat \<Rightarrow> int" where
  "cycle k = [IDLE, READY, RUNNING, DONE] ! (k mod 4)"

subsection \<open>Notions for the proof of a round\<close>

text \<open>
  The process with the lock of one slot set, when the pointer leads to a slot.
\<close>

definition set_lock :: "process \<Rightarrow> qref \<Rightarrow> int \<Rightarrow> process" where
  "set_lock p r v = (case load p r of Inl e \<Rightarrow> p | Inr q \<Rightarrow> store p r (q\<lparr>lock := v\<rparr>))"

text \<open>
  A pool of \<open>N\<close> slots at address \<open>a\<close>: a valid CAS function is installed, the handle and the
  count are those of the pool, the block has \<open>N\<close> slots, and there is exactly one worker
  thread for every slot, thread \<open>k\<close> on slot \<open>k\<close> (every thread could be started).
\<close>

definition shape :: "process \<Rightarrow> ptr \<Rightarrow> nat \<Rightarrow> bool" where
  "shape p a N =
     ((\<exists>c. cas p = Some c \<and> valid_cas c) \<and> queues p = a \<and> queue_count p = int N
      \<and> (\<exists>qs. heap p a = Some qs \<and> length qs = N)
      \<and> map fst (threads p) = map (\<lambda>k. (a, k)) [0..<N])"

text \<open>
  Where a worker stands.
\<close>

fun waits_ready :: "wpc \<Rightarrow> bool" where
  "waits_ready (WaitReady t) = True"
| "waits_ready CallTask = False"
| "waits_ready (WaitDone t) = False"

fun waits_done :: "wpc \<Rightarrow> bool" where
  "waits_done (WaitDone t) = True"
| "waits_done CallTask = False"
| "waits_done (WaitReady t) = False"

text \<open>
  A pool at rest, as \<open>launch_threads\<close> builds it and as a finished round leaves it: every
  lock is Idle and every worker is in its first wait.
\<close>

definition idle_pool :: "process \<Rightarrow> ptr \<Rightarrow> nat \<Rightarrow> bool" where
  "idle_pool p a N =
     (shape p a N
      \<and> (\<forall>j<N. lock_at p (a, j) = Some IDLE \<and> waits_ready (snd (threads p ! j))))"

text \<open>
  The tasks the driver has still to submit.
\<close>

fun pending :: "call list \<Rightarrow> Task list" where
  "pending [] = []"
| "pending (AddTask t # cs) = t # pending cs"
| "pending (Ready # cs) = pending cs"
| "pending (Synchronize # cs) = pending cs"

text \<open>
  The task calls made so far by the worker of one slot.
\<close>

definition slot_calls :: "system \<Rightarrow> qref \<Rightarrow> (qref \<times> Task) list" where
  "slot_calls s r = filter (\<lambda>c. fst c = r) (calls s)"

text \<open>
  The six stages a slot goes through in a round, as its lock, its worker and the calls of
  its worker show them: not yet released; released; claimed; task called; done; collected.
  \<open>c\<close> is the one call the worker has to make.
\<close>

definition stage :: "nat \<Rightarrow> int option \<Rightarrow> wpc \<Rightarrow> (qref \<times> Task) list \<Rightarrow> qref \<times> Task \<Rightarrow> bool" where
  "stage g l w cs c =
     ((g = 0 \<and> l = Some IDLE \<and> waits_ready w \<and> cs = [])
    \<or> (g = 1 \<and> l = Some READY \<and> waits_ready w \<and> cs = [])
    \<or> (g = 2 \<and> l = Some RUNNING \<and> w = CallTask \<and> cs = [])
    \<or> (g = 3 \<and> l = Some RUNNING \<and> waits_done w \<and> cs = [c])
    \<or> (g = 4 \<and> l = Some DONE \<and> waits_ready w \<and> cs = [c])
    \<or> (g = 5 \<and> l = Some IDLE \<and> waits_ready w \<and> cs = [c]))"

definition at_stage :: "ptr \<Rightarrow> Task list \<Rightarrow> system \<Rightarrow> nat \<Rightarrow> nat \<Rightarrow> bool" where
  "at_stage a Ts s j g =
     stage g (lock_at (proc s) (a, j)) (snd (threads (proc s) ! j)) (slot_calls s (a, j))
       ((a, j), Ts ! j)"

text \<open>
  How many slots \<open>ready\<close> has released and how many \<open>synchronize\<close> has collected, read
  off the place of the driver.
\<close>

fun released :: "nat \<Rightarrow> dpc \<Rightarrow> call list \<Rightarrow> nat" where
  "released N Between sc = (if Ready \<in> set sc then 0 else N)"
| "released N (InReady i t) sc = nat i"
| "released N (InSynchronize i t) sc = N"

fun synced :: "nat \<Rightarrow> dpc \<Rightarrow> call list \<Rightarrow> nat" where
  "synced N Between sc = (if sc = [] then N else 0)"
| "synced N (InReady i t) sc = 0"
| "synced N (InSynchronize i t) sc = nat i"

text \<open>
  The stage a slot may be in for a given place of the driver.
\<close>

definition expected :: "nat \<Rightarrow> dpc \<Rightarrow> call list \<Rightarrow> nat \<Rightarrow> nat \<Rightarrow> bool" where
  "expected N d sc j g =
     (if j < synced N d sc then g = 5
      else if j < released N d sc then 1 \<le> g \<and> g \<le> 4 else g = 0)"

text \<open>
  The places the driver goes through in a round.
\<close>

fun driver_form :: "nat \<Rightarrow> dpc \<Rightarrow> call list \<Rightarrow> bool" where
  "driver_form N Between sc =
     ((\<exists>ts. sc = map AddTask ts @ [Ready, Synchronize]) \<or> sc = [Synchronize] \<or> sc = [])"
| "driver_form N (InReady i t) sc = (0 \<le> i \<and> i \<le> int N \<and> sc = [Synchronize])"
| "driver_form N (InSynchronize i t) sc = (0 \<le> i \<and> i \<le> int N \<and> sc = [])"

text \<open>
  The invariant of a round whose slots hold the tasks \<open>Ts\<close> once all tasks are submitted.
\<close>

definition round_inv :: "ptr \<Rightarrow> nat \<Rightarrow> Task list \<Rightarrow> system \<Rightarrow> bool" where
  "round_inv a N Ts s =
     (fault s = None \<and> shape (proc s) a N \<and> (\<forall>j<N. func (Ts ! j) \<noteq> NULL)
      \<and> (\<exists>p'. add_tasks (pending (script s)) (proc s) = Ok p'
            \<and> (\<forall>j<N. task_at p' (a, j) = Some (Ts ! j)))
      \<and> driver_form N (dpc s) (script s)
      \<and> (\<forall>j<N. \<exists>g. at_stage a Ts s j g \<and> expected N (dpc s) (script s) j g)
      \<and> (\<forall>c\<in>set (calls s). \<exists>j<N. fst c = (a, j)))"

text \<open>
  What is left to do: for a slot, the moves its worker still has to make once released; for
  the driver, the calls and loop turns ahead. Every move that is not a failed CAS attempt
  lowers the potential.
\<close>

definition rank :: "int option \<Rightarrow> wpc \<Rightarrow> nat" where
  "rank l w = (if l = Some READY then 3 else if w = CallTask then 2 else if waits_done w then 1 else 0)"

definition slot_rank :: "ptr \<Rightarrow> system \<Rightarrow> nat \<Rightarrow> nat" where
  "slot_rank a s j = rank (lock_at (proc s) (a, j)) (snd (threads (proc s) ! j))"

fun driver_rank :: "nat \<Rightarrow> dpc \<Rightarrow> call list \<Rightarrow> nat" where
  "driver_rank N Between sc = (N + 2) * length sc"
| "driver_rank N (InReady i t) sc = (N + 2) * length sc + (N + 1 - nat i)"
| "driver_rank N (InSynchronize i t) sc = (N + 2) * length sc + (N + 1 - nat i)"

definition potential :: "ptr \<Rightarrow> nat \<Rightarrow> system \<Rightarrow> nat" where
  "potential a N s = 4 * driver_rank N (dpc s) (script s) + (\<Sum>j<N. slot_rank a s j)"

section \<open>The hash wrapper of \<^verbatim>\<open>numba/_hashwrap.c\<close>\<close>

text \<open>
  A Python object is either a \<open>WrapperObject\<close>, with its reference count, the object it
  wraps and the cached hash, or an object of any other type, of which only the reference
  count matters here. \<open>Py_hash_t\<close> values are only compared with \<open>-1\<close>.
\<close>

type_synonym Py_hash_t = int

datatype PyObject = WrapperObject int ptr Py_hash_t | OtherObject int

text \<open>
  The interpreter: the objects alive, by address, and the calls of \<^verbatim>\<open>PyObject_Hash\<close> that
  \<open>wrapper_hash\<close> has made, by the object hashed.
\<close>

record interp =
  objects :: "ptr \<Rightarrow> PyObject option"
  hashed :: "ptr list"

definition WRAPPER_CHECK :: "interp \<Rightarrow> ptr \<Rightarrow> bool" where
  "WRAPPER_CHECK st v = (case objects st v of Some (WrapperObject rc w h) \<Rightarrow> True | _ \<Rightarrow> False)"

text \<open>
  \<open>wrapper_hash\<close>. \<^verbatim>\<open>PyObject_Hash\<close> belongs to Python, not to this file: it is the
  parameter \<open>H\<close>, which gives the hash of the object at an address, \<open>-1\<close> when hashing it
  raises.
\<close>

definition wrapper_hash :: "(ptr \<Rightarrow> Py_hash_t) \<Rightarrow> ptr \<Rightarrow> interp \<Rightarrow> error + (Py_hash_t \<times> interp)" where
  "wrapper_hash H obj st =
     (case objects st obj of
        Some (WrapperObject rc w h) \<Rightarrow>
          if h = - 1 then
            Inr (H w, st\<lparr>objects := (objects st)(obj \<mapsto> WrapperObject rc w (H w)),
                         hashed := hashed st @ [w]\<rparr>)
          else Inr (h, st)
      | _ \<Rightarrow> Inl InvalidPointer)"

text \<open>
  \<open>hashwrap_make_wrapper\<close>; the unused \<open>self\<close> is left out. \<open>alloc\<close> is what
  \<^verbatim>\<open>PyType_GenericNew\<close> returns: \<open>None\<close> when it fails, else the address of the new object,
  which starts with one reference. The result is the pointer returned, \<open>None\<close> for
  \<^verbatim>\<open>NULL\<close>.
\<close>

definition hashwrap_make_wrapper :: "ptr option \<Rightarrow> ptr \<Rightarrow> interp \<Rightarrow> error + (ptr option \<times> interp)" where
  "hashwrap_make_wrapper alloc arg st =
     (case objects st arg of
        None \<Rightarrow> Inl InvalidPointer
      | Some (WrapperObject rc w h) \<Rightarrow>
          Inr (Some arg, st\<lparr>objects := (objects st)(arg \<mapsto> WrapperObject (rc + 1) w h)\<rparr>)
      | Some (OtherObject rc) \<Rightarrow>
          (case alloc of
             None \<Rightarrow> Inr (None, st)
           | Some obj \<Rightarrow>
               Inr (Some obj,
                 st\<lparr>objects := (objects st)(obj \<mapsto> WrapperObject 1 arg (- 1),
                                              arg \<mapsto> OtherObject (rc + 1))\<rparr>)))"

text \<open>
  The hash of any object, as Python's \<^verbatim>\<open>hash(v)\<close> finds it: through \<open>wrapper_hash\<close> for a
  wrapper, through the object's own hash otherwise.
\<close>

definition py_hash :: "(ptr \<Rightarrow> Py_hash_t) \<Rightarrow> ptr \<Rightarrow> interp \<Rightarrow> error + (Py_hash_t \<times> interp)" where
  "py_hash H v st =
     (case objects st v of
        None \<Rightarrow> Inl InvalidPointer
      | Some (WrapperObject rc w h) \<Rightarrow> wrapper_hash H v st
      | Some (OtherObject rc) \<Rightarrow> Inr (H v, st))"

text \<open>\<open>n\<close> calls of \<open>wrapper_hash\<close> on the same object: the hashes returned, in order.\<close>

fun hash_times :: "nat \<Rightarrow> (ptr \<Rightarrow> Py_hash_t) \<Rightarrow> ptr \<Rightarrow> interp \<Rightarrow> error + (Py_hash_t list \<times> interp)" where
  "hash_times 0 H obj st = Inr ([], st)"
| "hash_times (Suc n) H obj st =
     (case wrapper_hash H obj st of
        Inl e \<Rightarrow> Inl e
      | Inr (h, st') \<Rightarrow>
          (case hash_times n H obj st' of
             Inl e \<Rightarrow> Inl e
           | Inr (hs, st'') \<Rightarrow> Inr (h # hs, st'')))"

text \<open>
  The address \<^verbatim>\<open>PyType_GenericNew\<close> returns is that of no object alive.
\<close>

definition fresh :: "interp \<Rightarrow> ptr option \<Rightarrow> bool" where
  "fresh st alloc = (case alloc of None \<Rightarrow> True | Some a \<Rightarrow> objects st a = None)"

text \<open>Every wrapper wraps a live object that is not itself a wrapper.\<close>

definition no_nesting :: "interp \<Rightarrow> bool" where
  "no_nesting st =
     (\<forall>a rc x h. objects st a = Some (WrapperObject rc x h) \<longrightarrow>
        (\<exists>rc'. objects st x = Some (OtherObject rc')))"

section \<open>Concrete inputs\<close>

text \<open>
  A pool of two slots, as \<open>launch_threads\<close> builds it from \<open>startup\<close> once a CAS function
  is installed, and two tasks.
\<close>

definition example_pool :: process where
  "example_pool = \<lparr>cas = Some atomic_cas, queues = 1, queue_count = 2, queue_pivot = 0,
     heap = (\<lambda>a. None)(1 \<mapsto> [zero_Queue, zero_Queue]),
     threads = [((1, 0), WaitReady 1), ((1, 1), WaitReady 1)]\<rparr>"

definition task_A :: Task where
  "task_A = \<lparr>func = 100, args = 11, dims = 12, steps = 13, data = 14\<rparr>"

definition task_B :: Task where
  "task_B = \<lparr>func = 200, args = 21, dims = 22, steps = 23, data = 24\<rparr>"

text \<open>An interpreter with one object that is not a wrapper.\<close>

definition example_interp :: interp where
  "example_interp = \<lparr>objects = (\<lambda>a. None)(5 \<mapsto> OtherObject 1), hashed = []\<rparr>"


text \<open>
  A round on the example pool: both tasks are submitted, then \<open>ready\<close>, then
  \<open>synchronize\<close>; and a schedule under which the round completes.
\<close>

definition sched0 :: "tid list" where
  "sched0 = [Driver, Driver, Worker 0, Driver, Driver, Driver, Driver, Worker 1, Worker 0,
     Worker 0, Worker 0, Driver, Driver, Driver, Worker 1, Worker 1, Driver, Driver, Driver]"

definition example_round :: system where
  "example_round = enter example_pool [AddTask task_A, AddTask task_B, Ready, Synchronize]"

section \<open>Properties\<close>

subsection \<open>The backoff of \<open>cas_wait\<close>\<close>

lemma backoff_range: "1 \<le> backoff i \<and> backoff i \<le> 20000"
  by (simp add: backoff_def)

lemma wrap32_small: "- (2 ^ 31) \<le> x \<Longrightarrow> x < 2 ^ 31 \<Longrightarrow> wrap32 x = x"
  by (simp add: wrap32_def)

lemma next_timeout_backoff: "next_timeout (backoff i) = backoff (Suc i)"
proof -
  have r: "1 \<le> backoff i" "backoff i \<le> 20000"
    using backoff_range [of i] by simp_all
  then have w: "wrap32 (backoff i * 2) = backoff i * 2"
    by (intro wrap32_small) simp_all
  have "min (backoff i * 2) 20000 = backoff (Suc i)"
    by (simp add: backoff_def min_def)
  then show ?thesis
    by (simp add: next_timeout_def w MAX_WAIT_TIME_def Let_def min_def split: if_splits)
qed

lemma loop_none:
  "cas_wait_loop n env None old repl (others env j cur) (backoff j) (map backoff [0..<j])
     = Spinning (others env (j + n) cur) (backoff (j + n)) (map backoff [0..<j + n])"
proof (induction n arbitrary: j)
  case 0
  show ?case by simp
next
  case (Suc n)
  have "cas_wait_loop (Suc n) env None old repl (others env j cur) (backoff j) (map backoff [0..<j])
      = cas_wait_loop n env None old repl (others env (Suc j) cur) (backoff (Suc j)) (map backoff [0..<Suc j])"
    by (simp add: next_timeout_backoff)
  also have "\<dots> = Spinning (others env (Suc j + n) cur) (backoff (Suc j + n)) (map backoff [0..<Suc j + n])"
    by (rule Suc.IH)
  finally show ?case by simp
qed

lemma loop_naps:
  "case cas_wait_loop n env c old repl cur (backoff j) (map backoff [0..<j]) of
     Returned m ns \<Rightarrow> ns = map backoff [0..<length ns] \<and> length ns < j + n
   | Spinning m t ns \<Rightarrow> ns = map backoff [0..<j + n] \<and> t = backoff (j + n)"
proof (induction n arbitrary: j cur)
  case 0
  show ?case by simp
next
  case (Suc n)
  show ?case
  proof (cases "cas_wait_turn c old repl cur (backoff j)")
    case (Pair cur' t)
    show ?thesis
    proof (cases t)
      case Return
      with Pair show ?thesis by simp
    next
      case (Nap usec t')
      with Pair have ut: "usec = backoff j" "t' = backoff (Suc j)"
        by (cases c; auto simp: next_timeout_backoff split: prod.splits if_splits)+
      have "cas_wait_loop (Suc n) env c old repl cur (backoff j) (map backoff [0..<j])
          = cas_wait_loop n env c old repl (env j cur') (backoff (Suc j)) (map backoff [0..<Suc j])"
        using Pair Nap ut by simp
      with Suc.IH [where cur = "env j cur'" and j = "Suc j"] show ?thesis by (auto split: wait.splits)
    qed
  qed
qed

lemma backoff0: "backoff 0 = 1"
  by (simp add: backoff_def)

text \<open>
  C4: with no CAS function installed, \<open>cas_wait\<close> never returns and never writes the
  integer it waits on. After any number \<open>n\<close> of turns the call is still spinning; the
  integer is what the other threads alone have made of it, so it is unchanged when nobody
  else writes it; and a single turn leaves it as it found it.
\<close>

theorem cas_wait_without_cas_spins:
  "\<not> returned (cas_wait n env None old repl cur)
   \<and> pointee (cas_wait n env None old repl cur) = others env n cur
   \<and> pointee (cas_wait n (\<lambda>i m. m) None old repl cur) = cur
   \<and> fst (cas_wait_turn None old repl cur timeout) = cur"
proof -
  have a: "cas_wait n e None old repl cur
      = Spinning (others e n cur) (backoff n) (map backoff [0..<n])" for e
    using loop_none [where j = 0 and n = n and env = e and old = old and repl = repl and cur = cur] by (simp add: cas_wait_def backoff0)
  have b: "others (\<lambda>i m. m) n cur = cur"
    by (induction n) simp_all
  show ?thesis by (simp add: a b)
qed

lemma loop_attempts:
  "naps_of (cas_wait_loop n env c old repl cur (backoff j) (map backoff [0..<j])) =
     map backoff [0..<j + failed_attempts n env c old repl cur j]
   \<and> returned (cas_wait_loop n env c old repl cur (backoff j) (map backoff [0..<j])) =
     (failed_attempts n env c old repl cur j < n)"
proof (induction n arbitrary: cur j)
  case 0
  show ?case by simp
next
  case (Suc n)
  show ?case
  proof (cases c)
    case None
    have "cas_wait_loop (Suc n) env c old repl cur (backoff j) (map backoff [0..<j]) =
        cas_wait_loop n env c old repl (env j cur) (backoff (Suc j)) (map backoff [0..<Suc j])"
      using None by (simp add: next_timeout_backoff)
    moreover have "failed_attempts (Suc n) env c old repl cur j =
        Suc (failed_attempts n env c old repl (env j cur) (Suc j))"
      using None by simp
    ultimately show ?thesis
      using Suc.IH [of "env j cur" "Suc j"] by simp
  next
    case (Some f)
    obtain out cur' where f: "f cur old repl = (out, cur')" by (cases "f cur old repl")
    show ?thesis
    proof (cases "out = old")
      case True
      with Some f show ?thesis by simp
    next
      case False
      have "cas_wait_loop (Suc n) env c old repl cur (backoff j) (map backoff [0..<j]) =
          cas_wait_loop n env c old repl (env j cur') (backoff (Suc j)) (map backoff [0..<Suc j])"
        using Some f False by (simp add: next_timeout_backoff)
      moreover have "failed_attempts (Suc n) env c old repl cur j =
          Suc (failed_attempts n env c old repl (env j cur') (Suc j))"
        using Some f False by simp
      ultimately show ?thesis
        using Suc.IH [of "env j cur'" "Suc j"] by simp
    qed
  qed
qed

lemma failed_attempts_None: "failed_attempts n env None old repl cur i = n"
  by (induction n arbitrary: cur i) simp_all

text \<open>
  C5: every failed attempt of \<open>cas_wait\<close> is followed by a nap, and the nap after failed
  attempt number \<open>i + 1\<close> lasts \<open>min (2 ^ i) 20000\<close>. Whatever the CAS function and the
  other threads do, the naps a call has taken in its first \<open>n\<close> turns are exactly
  \<open>1, 2, 4, \<dots>, 16384, 20000, 20000, \<dots>\<close>, one for each of its failed attempts, and it
  has returned just when fewer than \<open>n\<close> attempts failed; with no CAS function all \<open>n\<close>
  attempts fail. A single failed turn naps for the timeout it has and goes on with the
  next one; the timeout after \<open>n\<close> failed attempts is \<open>min (2 ^ n) 20000\<close>, it steps from
  each of these values to the next, and the shift never leaves the 32-bit range.
\<close>

theorem cas_wait_backoff:
  "naps_of (cas_wait n env c old repl cur) =
     map (\<lambda>i. min (2 ^ i) 20000) [0..<failed_attempts n env c old repl cur 0]
   \<and> returned (cas_wait n env c old repl cur) = (failed_attempts n env c old repl cur 0 < n)
   \<and> failed_attempts n env None old repl cur 0 = n
   \<and> (snd (cas_wait_turn c old repl cur timeout) = Return
       \<or> snd (cas_wait_turn c old repl cur timeout) = Nap timeout (next_timeout timeout))
   \<and> (case cas_wait n env c old repl cur of
        Returned m ns \<Rightarrow> ns = map (\<lambda>i. min (2 ^ i) 20000) [0..<length ns] \<and> length ns < n
      | Spinning m t ns \<Rightarrow> ns = map (\<lambda>i. min (2 ^ i) 20000) [0..<n] \<and> t = min (2 ^ n) 20000)
   \<and> next_timeout (min (2 ^ i) 20000) = min (2 ^ Suc i) 20000
   \<and> wrap32 (min (2 ^ i) 20000 * 2) = min (2 ^ i) 20000 * 2"
proof -
  have w: "wrap32 (backoff i * 2) = backoff i * 2"
    using backoff_range [of i] by (intro wrap32_small) simp_all
  have l: "case cas_wait n env c old repl cur of
      Returned m ns \<Rightarrow> ns = map backoff [0..<length ns] \<and> length ns < n
    | Spinning m t ns \<Rightarrow> ns = map backoff [0..<n] \<and> t = backoff n"
    using loop_naps [where j = 0 and n = n and env = env and c = c and old = old
        and repl = repl and cur = cur]
    by (auto simp: cas_wait_def backoff0 split: wait.splits)
  have a: "naps_of (cas_wait n env c old repl cur) =
      map backoff [0..<failed_attempts n env c old repl cur 0]"
    "returned (cas_wait n env c old repl cur) = (failed_attempts n env c old repl cur 0 < n)"
    using loop_attempts [where j = 0 and n = n and env = env and c = c and old = old
        and repl = repl and cur = cur]
    by (simp_all add: cas_wait_def backoff0)
  have t: "snd (cas_wait_turn c old repl cur timeout) = Return
       \<or> snd (cas_wait_turn c old repl cur timeout) = Nap timeout (next_timeout timeout)"
    by (cases c) (auto split: prod.splits)
  have old: "(case cas_wait n env c old repl cur of
        Returned m ns \<Rightarrow> ns = map (\<lambda>i. min (2 ^ i) 20000) [0..<length ns] \<and> length ns < n
      | Spinning m t ns \<Rightarrow> ns = map (\<lambda>i. min (2 ^ i) 20000) [0..<n] \<and> t = min (2 ^ n) 20000)
   \<and> next_timeout (min (2 ^ i) 20000) = min (2 ^ Suc i) 20000
   \<and> wrap32 (min (2 ^ i) 20000 * 2) = min (2 ^ i) 20000 * 2"
    using l next_timeout_backoff [of i] w
    unfolding backoff_def by (auto split: wait.splits)
  have a': "naps_of (cas_wait n env c old repl cur) =
      map (\<lambda>i. min (2 ^ i) 20000) [0..<failed_attempts n env c old repl cur 0]"
    using a(1) by (simp add: backoff_def [abs_def])
  show ?thesis
    using a' a(2) failed_attempts_None [of n env old repl cur 0] t old by blast
qed

subsection \<open>Round-robin submission\<close>

lemma add_task_ok:
  assumes "heap p (queues p) = Some qs" "queue_pivot p = int n" "n < length qs"
  shows "add_task fn a d s x p =
    Ok (p\<lparr>heap := (heap p)(queues p \<mapsto>
            qs[n := (qs ! n)\<lparr>task := \<lparr>func = fn, args = a, dims = d, steps = s, data = x\<rparr>\<rparr>]),
          queue_pivot := (if int n + 1 = queue_count p then 0 else int n + 1)\<rparr>)"
  using assms by (simp add: add_task_def load_def store_def)

lemma mod_step: "n < N \<Longrightarrow> (if int n + 1 = int N then 0 else int n + 1) = int (Suc n mod N)"
  by (auto simp: mod_Suc)

lemma slot_distinct:
  assumes "n < N" "i < k" "Suc k \<le> N"
  shows "(Suc n mod N + i) mod N \<noteq> n"
proof
  assume e: "(Suc n mod N + i) mod N = n"
  have m: "(Suc n mod N + i) mod N = (n + Suc i) mod N"
    by (simp add: mod_add_left_eq)
  show False
  proof (cases "n + Suc i < N")
    case True
    with e m show False by simp
  next
    case False
    then have "(n + Suc i) mod N = (n + Suc i - N) mod N"
      by (simp add: le_mod_geq)
    moreover have "n + Suc i - N < N" using assms by simp
    ultimately have "(n + Suc i) mod N = n + Suc i - N" by simp
    with e m assms False show False by simp
  qed
qed

lemma add_tasks_spec:
  assumes "heap p (queues p) = Some qs" "length qs = N" "queue_count p = int N"
    "queue_pivot p = int n" "n < N" "length ts \<le> N"
  shows "\<exists>qs'. add_tasks ts p =
           Ok (p\<lparr>heap := (heap p)(queues p \<mapsto> qs'),
                 queue_pivot := int ((n + length ts) mod N)\<rparr>)
         \<and> length qs' = N \<and> map lock qs' = map lock qs
         \<and> (\<forall>i<length ts. task (qs' ! ((n + i) mod N)) = ts ! i)
         \<and> (\<forall>j<N. (\<forall>i<length ts. j \<noteq> (n + i) mod N) \<longrightarrow> qs' ! j = qs ! j)"
  using assms
proof (induction ts arbitrary: p qs n)
  case Nil
  then show ?case
    by (intro exI [of _ qs]) (simp add: fun_upd_idem)
next
  case (Cons t ts)
  let ?T = "\<lparr>func = func t, args = args t, dims = dims t, steps = steps t, data = data t\<rparr>"
  let ?qs1 = "qs[n := (qs ! n)\<lparr>task := ?T\<rparr>]"
  let ?p1 = "p\<lparr>heap := (heap p)(queues p \<mapsto> ?qs1), queue_pivot := int (Suc n mod N)\<rparr>"
  have T: "?T = t" by simp
  have s1: "add_task (func t) (args t) (dims t) (steps t) (data t) p = Ok ?p1"
    using Cons.prems add_task_ok [of p qs n] mod_step [of n N] by simp
  have "\<exists>qs'. add_tasks ts ?p1 =
           Ok (?p1\<lparr>heap := (heap ?p1)(queues ?p1 \<mapsto> qs'),
                 queue_pivot := int ((Suc n mod N + length ts) mod N)\<rparr>)
         \<and> length qs' = N \<and> map lock qs' = map lock ?qs1
         \<and> (\<forall>i<length ts. task (qs' ! ((Suc n mod N + i) mod N)) = ts ! i)
         \<and> (\<forall>j<N. (\<forall>i<length ts. j \<noteq> (Suc n mod N + i) mod N) \<longrightarrow> qs' ! j = ?qs1 ! j)"
    using Cons.prems by (intro Cons.IH) simp_all
  then obtain qs' where r:
    "add_tasks ts ?p1 = Ok (?p1\<lparr>heap := (heap ?p1)(queues ?p1 \<mapsto> qs'),
                 queue_pivot := int ((Suc n mod N + length ts) mod N)\<rparr>)"
    "length qs' = N" "map lock qs' = map lock ?qs1"
    "\<forall>i<length ts. task (qs' ! ((Suc n mod N + i) mod N)) = ts ! i"
    "\<forall>j<N. (\<forall>i<length ts. j \<noteq> (Suc n mod N + i) mod N) \<longrightarrow> qs' ! j = ?qs1 ! j"
    by blast
  have piv: "(Suc n mod N + length ts) mod N = (n + length (t # ts)) mod N"
    by (simp add: mod_add_left_eq)
  have idx: "(Suc n mod N + i) mod N = (n + Suc i) mod N" for i
    by (simp add: mod_add_left_eq)
  have a: "add_tasks (t # ts) p =
      Ok (p\<lparr>heap := (heap p)(queues p \<mapsto> qs'), queue_pivot := int ((n + length (t # ts)) mod N)\<rparr>)"
    using s1 r(1) piv by simp
  have l: "map lock qs' = map lock qs"
    using r(3) Cons.prems by (simp add: map_update list_update_same_conv)
  have "\<forall>i<length ts. n \<noteq> (Suc n mod N + i) mod N"
    using slot_distinct [of n N _ "length ts"] Cons.prems by fastforce
  then have "qs' ! n = ?qs1 ! n" using r(5) Cons.prems by simp
  then have h0: "task (qs' ! n) = t" using Cons.prems T by simp
  have w: "task (qs' ! ((n + i) mod N)) = (t # ts) ! i" if "i < length (t # ts)" for i
  proof (cases i)
    case 0
    then show ?thesis using h0 Cons.prems by simp
  next
    case (Suc i')
    with that have "i' < length ts" by simp
    with r(4) have "task (qs' ! ((Suc n mod N + i') mod N)) = ts ! i'" by blast
    then show ?thesis using Suc idx [of i'] by simp
  qed
  have u: "qs' ! j = qs ! j" if "j < N" "\<forall>i<length (t # ts). j \<noteq> (n + i) mod N" for j
  proof -
    have jn: "j \<noteq> n" using that(2) Cons.prems by (auto dest: spec [of _ 0])
    have "\<forall>i<length ts. j \<noteq> (Suc n mod N + i) mod N"
      using that(2) idx by auto
    then have "qs' ! j = ?qs1 ! j" using r(5) that(1) by simp
    then show ?thesis using jn by simp
  qed
  show ?case
    using a r(2) l w u by (intro exI [of _ qs']) blast
qed

subsection \<open>The life of the pool\<close>

lemma example_pool_launched:
  "launch_threads traps 1 (\<lambda>i. True) 2 (set_cas (Some atomic_cas) startup) = Ok example_pool"
  by (simp add: launch_threads_def memset_zero_def set_cas_def startup_def example_pool_def NULL_def
      upt_rec numeral_2_eq_2)

text \<open>
  C2: in a pool of \<open>N\<close> slots with the cursor at 0, \<open>N\<close> calls of \<open>add_task\<close> succeed,
  the call for task \<open>i\<close> finds the cursor at \<open>i mod N\<close> and the task ends up in slot
  \<open>i mod N\<close>, and afterwards the cursor is back where it started.
\<close>

theorem add_task_round_robin:
  assumes "heap p (queues p) = Some qs" "length qs = N" "queue_count p = int N"
    "queue_pivot p = 0" "length ts = N"
  shows "\<exists>p' qs'. add_tasks ts p = Ok p' \<and> queues p' = queues p
      \<and> heap p' (queues p) = Some qs' \<and> length qs' = N
      \<and> (\<forall>i<N. task (qs' ! (i mod N)) = ts ! i)
      \<and> queue_pivot p' = queue_pivot p
      \<and> (\<forall>i<N. \<exists>q. add_tasks (take i ts) p = Ok q \<and> queue_pivot q = int (i mod N))"
proof (cases "N = 0")
  case True
  with assms show ?thesis by simp
next
  case False
  then have n: "0 < N" by simp
  obtain qs' where r: "add_tasks ts p =
           Ok (p\<lparr>heap := (heap p)(queues p \<mapsto> qs'),
                 queue_pivot := int ((0 + length ts) mod N)\<rparr>)"
     "length qs' = N" "\<forall>i<length ts. task (qs' ! ((0 + i) mod N)) = ts ! i"
    using add_tasks_spec [OF assms(1,2,3), of 0 ts] assms n by auto
  have pre: "\<exists>q. add_tasks (take i ts) p = Ok q \<and> queue_pivot q = int (i mod N)" if "i < N" for i
  proof -
    obtain qs'' where "add_tasks (take i ts) p =
           Ok (p\<lparr>heap := (heap p)(queues p \<mapsto> qs''),
                 queue_pivot := int ((0 + length (take i ts)) mod N)\<rparr>)"
      using add_tasks_spec [OF assms(1,2,3), of 0 "take i ts"] assms n that by auto
    then show ?thesis using that assms by simp
  qed
  show ?thesis
    using r assms pre by simp
qed

theorem add_task_round_robin_witness:
  "\<exists>p' qs'. add_tasks [task_A, task_B] example_pool = Ok p'
      \<and> heap p' (queues example_pool) = Some qs' \<and> map task qs' = [task_A, task_B]
      \<and> queue_pivot p' = 0"
proof -
  have h: "heap example_pool (queues example_pool) = Some [zero_Queue, zero_Queue]"
    "queue_count example_pool = int 2" "queue_pivot example_pool = 0"
    by (simp_all add: example_pool_def)
  obtain p' qs' where r: "add_tasks [task_A, task_B] example_pool = Ok p'"
    "heap p' (queues example_pool) = Some qs'" "length qs' = 2"
    "\<forall>i<2. task (qs' ! (i mod 2)) = [task_A, task_B] ! i"
    "queue_pivot p' = queue_pivot example_pool"
    using add_task_round_robin [OF h(1) _ h(2) h(3), of "[task_A, task_B]"] by auto
  from r(4) have "task (qs' ! 0) = task_A" "task (qs' ! 1) = task_B"
    by (auto dest: spec [of _ 0] spec [of _ 1])
  with r(3) have "map task qs' = [task_A, task_B]"
    by (cases qs'; cases "tl qs'"; cases "tl (tl qs')") auto
  with r h show ?thesis by auto
qed

text \<open>
  C6 as stated does not hold: on the example pool \<open>reset_after_fork\<close> clears the handle
  and the block that held the slots is gone from the heap.
\<close>

theorem reset_after_fork_keeps_storage_counterexample:
  "reset_after_fork example_pool = Ok (example_pool\<lparr>heap := (\<lambda>a. None), queues := NULL\<rparr>)
   \<and> heap example_pool 1 = Some [zero_Queue, zero_Queue]
   \<and> heap (example_pool\<lparr>heap := (\<lambda>a. None), queues := NULL\<rparr>) 1 = None"
  by (simp add: reset_after_fork_def example_pool_def NULL_def)

text \<open>
  C6, amended: \<open>reset_after_fork\<close> frees the storage of the pool and then clears the
  handle; the CAS function, the count, the cursor, the other blocks and the threads stay
  as they were.
\<close>

theorem reset_after_fork_frees:
  assumes "queues p \<noteq> NULL" "heap p (queues p) = Some qs"
  shows "reset_after_fork p = Ok (p\<lparr>heap := (heap p)(queues p := None), queues := NULL\<rparr>)"
  using assms by (simp add: reset_after_fork_def)

theorem reset_after_fork_frees_witness:
  "reset_after_fork example_pool =
     Ok (example_pool\<lparr>heap := (heap example_pool)(queues example_pool := None), queues := NULL\<rparr>)"
  using reset_after_fork_frees [of example_pool "[zero_Queue, zero_Queue]"]
  by (simp add: example_pool_def NULL_def)

text \<open>
  C7: once the pool exists, \<open>launch_threads\<close> changes nothing, whatever the count,
  whatever \<^verbatim>\<open>malloc\<close> would return, whether or not threads could be started and
  whatever the machine does at a null pointer: the slots, the count and the threads are
  those of before.
\<close>

theorem launch_threads_idempotent:
  assumes "queues p \<noteq> NULL"
  shows "launch_threads traps m spawn count p = Ok p"
  using assms by (simp add: launch_threads_def memset_zero_def)

theorem launch_threads_idempotent_witness:
  "launch_threads True 7 (\<lambda>i. True) 5 example_pool = Ok example_pool"
  using launch_threads_idempotent [of example_pool True 7 "\<lambda>i. True" 5]
  by (simp add: example_pool_def NULL_def)

text \<open>
  C8: the code does not do what the claim says. \<open>launch_threads\<close> never looks at what
  \<^verbatim>\<open>malloc\<close> returned. When it returned \<open>NULL\<close> for four slots, the handle stays null and
  the call goes on into \<^verbatim>\<open>memset\<close> on the null pointer; nothing in the function aborts.
  On a machine that does not stop the process there, the function comes back as after a
  success: the count is recorded and the four threads are started, each on a slot pointer
  made from the null handle. Only where the machine traps does the call end in a crash
  with nothing done.
\<close>

theorem launch_threads_ignores_malloc_failure:
  "launch_threads False NULL (\<lambda>i. True) 4 startup =
     Ok (startup\<lparr>queue_count := 4,
           threads := [((NULL, 0), WaitReady 1), ((NULL, 1), WaitReady 1),
                       ((NULL, 2), WaitReady 1), ((NULL, 3), WaitReady 1)]\<rparr>)
   \<and> launch_threads True NULL (\<lambda>i. True) 4 startup = Crash NullPointer startup
   \<and> launch_threads True NULL (\<lambda>i. True) 0 startup = Ok startup"
  by (simp add: launch_threads_def memset_zero_def startup_def upt_rec)

subsection \<open>Every lock moves round the cycle\<close>

lemma store_same: "load p r = Inr q \<Longrightarrow> store p r q = p"
  by (auto simp: load_def store_def fun_upd_idem split: option.splits if_splits)

lemma cas_wait_at_None:
  "cas p = None \<Longrightarrow> cas_wait_at p r old repl t = Inr (p, Nap t (next_timeout t))"
  by (simp add: cas_wait_at_def)

lemma cas_wait_at_fail:
  "cas p = Some c \<Longrightarrow> load p r = Inl e \<Longrightarrow> cas_wait_at p r old repl t = Inl e"
  by (simp add: cas_wait_at_def)

lemma cas_wait_at_valid:
  assumes "cas p = Some c" "valid_cas c" "load p r = Inr q"
  shows "cas_wait_at p r old repl t =
    Inr (if lock q = old then (store p r (q\<lparr>lock := repl\<rparr>), Return)
         else (p, Nap t (next_timeout t)))"
  using assms store_same [OF assms(3)]
  by (simp add: cas_wait_at_def valid_cas_def atomic_cas_def)

lemma load_store:
  assumes "load p r = Inr q"
  shows "load (store p r q') r' = (if r' = r then Inr q' else load p r')"
proof -
  obtain a i where r: "r = (a, i)" by (cases r)
  obtain a' i' where r': "r' = (a', i')" by (cases r')
  from assms r obtain qs where qs: "heap p a = Some qs" "i < length qs"
    by (auto simp: load_def split: option.splits if_splits)
  have st: "store p (a, i) q' = p\<lparr>heap := (heap p)(a \<mapsto> qs[i := q'])\<rparr>"
    using qs by (simp add: store_def)
  show ?thesis
    unfolding r r' st using qs
    by (simp add: load_def nth_list_update)
qed

lemma lock_at_store:
  assumes "load p r = Inr q"
  shows "lock_at (store p r (q\<lparr>lock := v\<rparr>)) r' = (if r' = r then Some v else lock_at p r')"
  by (simp add: lock_at_def load_store [OF assms])

lemma lock_at_store_task:
  assumes "load p r = Inr q"
  shows "lock_at (store p r (q\<lparr>task := x\<rparr>)) r' = lock_at p r'"
  using assms by (simp add: lock_at_def load_store [OF assms])

lemma cas_store [simp]: "cas (store p r q) = cas p"
  by (simp add: store_def split: option.splits)

lemma threads_store [simp]: "threads (store p r q) = threads p"
  by (simp add: store_def split: option.splits)

lemma lock_at_threads [simp]: "lock_at (p\<lparr>threads := x\<rparr>) r = lock_at p r"
  by (simp add: lock_at_def load_def)

lemma lock_at_pivot [simp]: "lock_at (p\<lparr>queue_pivot := x\<rparr>) r = lock_at p r"
  by (simp add: lock_at_def load_def)

lemma lock_move_refl [simp]: "lock_move a a"
  by (simp add: lock_move_def)

lemma cas_wait_at_moves:
  assumes "cas_ok p" "cas_wait_at p r0 old repl t = Inr (p', tr)"
    "old \<in> {IDLE, READY, RUNNING, DONE}" "repl = successor old"
  shows "lock_move (lock_at p r) (lock_at p' r) \<and> cas p' = cas p"
proof (cases "cas p")
  case None
  with assms show ?thesis by (simp add: cas_wait_at_None)
next
  case (Some c)
  with assms(1) have v: "valid_cas c" by (simp add: cas_ok_def)
  show ?thesis
  proof (cases "load p r0")
    case (Inl e)
    with Some assms show ?thesis by (simp add: cas_wait_at_fail)
  next
    case (Inr q)
    have l: "lock_at p r0 = Some (lock q)" using Inr by (simp add: lock_at_def)
    show ?thesis
    proof (cases "lock q = old")
      case True
      with assms(2) have "p' = store p r0 (q\<lparr>lock := repl\<rparr>)"
        using cas_wait_at_valid [OF Some v Inr, of old repl t] by simp
      then show ?thesis
        using lock_at_store [OF Inr, of repl r] l True assms(3,4)
        by (auto simp: lock_move_def)
    next
      case False
      with assms(2) have "p' = p"
        using cas_wait_at_valid [OF Some v Inr, of old repl t] by simp
      then show ?thesis by simp
    qed
  qed
qed

lemma add_task_Crash: "add_task fn a d s x p = Crash e p' \<Longrightarrow> p' = p"
  by (simp add: add_task_def split: if_splits sum.splits)

lemma add_task_Ok:
  assumes "add_task fn a d s x p = Ok p'"
  shows "lock_at p' r = lock_at p r \<and> cas p' = cas p"
proof -
  from assms obtain q where q: "load p (queues p, nat (queue_pivot p)) = Inr q"
    by (cases "load p (queues p, nat (queue_pivot p))") (simp_all add: add_task_def split: if_splits)
  with assms have "p' = (store p (queues p, nat (queue_pivot p))
      (q\<lparr>task := \<lparr>func = fn, args = a, dims = d, steps = s, data = x\<rparr>\<rparr>))
      \<lparr>queue_pivot := (if queue_pivot p + 1 = queue_count p then 0 else queue_pivot p + 1)\<rparr>"
    by (simp add: add_task_def split: if_splits)
  then show ?thesis
    using lock_at_store_task [OF q] by simp
qed

lemma successors [simp]:
  "successor IDLE = READY" "successor READY = RUNNING" "successor RUNNING = DONE"
  "successor DONE = IDLE"
  by (simp_all add: successor_def IDLE_def READY_def RUNNING_def DONE_def)

lemma sweep_turn_moves:
  assumes "cas_ok p" "sweep_turn old repl i t p = Inr (p', sw)"
    "old \<in> {IDLE, READY, RUNNING, DONE}" "repl = successor old"
  shows "lock_move (lock_at p r) (lock_at p' r) \<and> cas p' = cas p"
proof (cases "i < queue_count p")
  case True
  then obtain tr where cw: "cas_wait_at p (queues p, nat i) old repl t = Inr (p', tr)"
    using assms(2) by (auto simp: sweep_turn_def split: sum.splits turn.splits)
  show ?thesis by (rule cas_wait_at_moves [OF assms(1) cw assms(3,4)])
next
  case False
  with assms(2) show ?thesis by (simp add: sweep_turn_def)
qed

lemma driver_step_moves:
  assumes "cas_ok (proc s)"
  shows "lock_move (lock_at (proc s) r) (lock_at (proc (driver_step s)) r)
     \<and> cas (proc (driver_step s)) = cas (proc s)"
proof (cases "dpc s")
  case Between
  show ?thesis
  proof (cases "script s")
    case Nil
    with Between show ?thesis by (simp add: driver_step_def)
  next
    case (Cons c cs)
    show ?thesis
    proof (cases c)
      case (AddTask t)
      show ?thesis
      proof (cases "add_task (func t) (args t) (dims t) (steps t) (data t) (proc s)")
        case (Ok p')
        with Between Cons AddTask add_task_Ok [OF Ok, of r] show ?thesis
          by (simp add: driver_step_def)
      next
        case (Crash e p')
        with Between Cons AddTask add_task_Crash [OF Crash] show ?thesis
          by (simp add: driver_step_def)
      qed
    qed (use Between Cons in \<open>simp_all add: driver_step_def\<close>)
  qed
next
  case (InReady i t)
  show ?thesis
  proof (cases "ready i t (proc s)")
    case (Inl e)
    with InReady show ?thesis by (simp add: driver_step_def)
  next
    case (Inr x)
    obtain p' sw where x: "x = (p', sw)" by (cases x)
    have "lock_move (lock_at (proc s) r) (lock_at p' r) \<and> cas p' = cas (proc s)"
      using sweep_turn_moves [OF assms, of IDLE READY i t p' sw] Inr x
      by (simp add: ready_def)
    with InReady Inr x show ?thesis
      by (cases sw) (simp_all add: driver_step_def)
  qed
next
  case (InSynchronize i t)
  show ?thesis
  proof (cases "synchronize i t (proc s)")
    case (Inl e)
    with InSynchronize show ?thesis by (simp add: driver_step_def)
  next
    case (Inr x)
    obtain p' sw where x: "x = (p', sw)" by (cases x)
    have "lock_move (lock_at (proc s) r) (lock_at p' r) \<and> cas p' = cas (proc s)"
      using sweep_turn_moves [OF assms, of DONE IDLE i t p' sw] Inr x
      by (simp add: synchronize_def)
    with InSynchronize Inr x show ?thesis
      by (cases sw) (simp_all add: driver_step_def)
  qed
qed

lemma thread_worker_moves:
  assumes "cas_ok p" "thread_worker r0 pc p = Inr (p', pc', cl)"
  shows "lock_move (lock_at p r) (lock_at p' r) \<and> cas p' = cas p"
proof (cases pc)
  case (WaitReady t)
  then obtain tr where cw: "cas_wait_at p r0 READY RUNNING t = Inr (p', tr)"
    using assms(2) by (auto simp: thread_worker_def split: sum.splits turn.splits)
  show ?thesis using cas_wait_at_moves [OF assms(1) cw] by simp
next
  case CallTask
  with assms(2) have "p' = p"
    by (auto simp: thread_worker_def split: sum.splits if_splits)
  then show ?thesis by simp
next
  case (WaitDone t)
  then obtain tr where cw: "cas_wait_at p r0 RUNNING DONE t = Inr (p', tr)"
    using assms(2) by (auto simp: thread_worker_def split: sum.splits turn.splits)
  show ?thesis using cas_wait_at_moves [OF assms(1) cw] by simp
qed

lemma worker_step_moves:
  assumes "cas_ok (proc s)"
  shows "lock_move (lock_at (proc s) r) (lock_at (proc (worker_step k s)) r)
     \<and> cas (proc (worker_step k s)) = cas (proc s)"
proof (cases "k < length (threads (proc s))")
  case False
  then show ?thesis by (simp add: worker_step_def)
next
  case True
  obtain r0 pc where th: "threads (proc s) ! k = (r0, pc)" by (cases "threads (proc s) ! k")
  show ?thesis
  proof (cases "thread_worker r0 pc (proc s)")
    case (Inl e)
    with True th show ?thesis by (simp add: worker_step_def)
  next
    case (Inr x)
    obtain p' pc' cl where x: "x = (p', pc', cl)" by (cases x)
    with Inr thread_worker_moves [OF assms, of r0 pc p' pc' cl r] True th show ?thesis
      by (simp add: worker_step_def)
  qed
qed

lemma step_moves:
  assumes "cas_ok (proc s)"
  shows "lock_move (lock_at (proc s) r) (lock_at (proc (step t s)) r)"
    and "cas_ok (proc (step t s))"
  using assms driver_step_moves [OF assms, of r] worker_step_moves [OF assms, of r]
  by (cases t; simp add: cas_ok_def)+

lemma mod4_cases: "(k::nat) mod 4 = 0 \<or> k mod 4 = 1 \<or> k mod 4 = 2 \<or> k mod 4 = 3"
  by presburger

lemma mod4_Suc:
  "Suc k mod 4 = (if k mod 4 = 3 then 0 else Suc (k mod 4))"
  by presburger

lemma cycle_state: "cycle k \<in> {IDLE, READY, RUNNING, DONE}"
  using mod4_cases [of k] by (auto simp: cycle_def)

lemma cycle_Suc: "successor (cycle k) = cycle (Suc k)"
  using mod4_cases [of k] by (auto simp: cycle_def mod4_Suc)

lemma cycle_Suc_neq: "cycle (Suc k) \<noteq> cycle k"
  using mod4_cases [of k]
  by (auto simp: cycle_def mod4_Suc IDLE_def READY_def RUNNING_def DONE_def)

lemma cycle_0: "cycle 0 = IDLE"
  by (simp add: cycle_def)

lemma locks_seen_head: "\<exists>rest. locks_seen r ts s = lock_at (proc s) r # rest"
  by (cases ts) simp_all

lemma locks_seen_cycle:
  assumes "cas_ok (proc s)" "lock_at (proc s) r = Some (cycle j)"
  shows "remdups_adj (locks_seen r sched s) =
    map (\<lambda>k. Some (cycle (j + k))) [0..<length (remdups_adj (locks_seen r sched s))]"
  using assms
proof (induction sched arbitrary: s j)
  case Nil
  then show ?case by simp
next
  case (Cons t ts)
  let ?s = "step t s"
  have ok: "cas_ok (proc ?s)" by (rule step_moves(2) [OF Cons.prems(1)])
  obtain rest where rest: "locks_seen r ts ?s = lock_at (proc ?s) r # rest"
    using locks_seen_head by blast
  have mv: "lock_move (Some (cycle j)) (lock_at (proc ?s) r)"
    using step_moves(1) [OF Cons.prems(1), of r t] Cons.prems(2) by simp
  then consider (same) "lock_at (proc ?s) r = Some (cycle j)"
    | (move) "lock_at (proc ?s) r = Some (cycle (Suc j))"
    by (auto simp: lock_move_def cycle_Suc)
  then show ?case
  proof cases
    case same
    have "remdups_adj (locks_seen r (t # ts) s) = remdups_adj (locks_seen r ts ?s)"
      using Cons.prems(2) rest same by simp
    then show ?thesis using Cons.IH [OF ok same] by simp
  next
    case move
    let ?n = "length (remdups_adj (locks_seen r ts ?s))"
    have e: "remdups_adj (locks_seen r (t # ts) s) =
        Some (cycle j) # remdups_adj (locks_seen r ts ?s)"
      using Cons.prems(2) rest move cycle_Suc_neq [of j] by simp
    have "remdups_adj (locks_seen r ts ?s) = map (\<lambda>k. Some (cycle (Suc j + k))) [0..<?n]"
      by (rule Cons.IH [OF ok move])
    then have "Some (cycle j) # remdups_adj (locks_seen r ts ?s) =
        map (\<lambda>k. Some (cycle (j + k))) [0..<Suc ?n]"
      by (simp add: map_upt_Suc del: upt_Suc)
    then show ?thesis using e by simp
  qed
qed

text \<open>
  C3: whichever thread moves, the driver inside \<open>ready\<close> or \<open>synchronize\<close> (or in
  \<open>add_task\<close>) or a worker in its loop, the lock of every slot either stays as it is or
  goes from its state to the next one of the cycle Idle, Ready, Running, Done, Idle. So
  along every execution from a state where the lock is Idle, as \<open>memset\<close> leaves it, the
  states the lock goes through are the cycle from Idle on, repeated. The CAS function is
  taken to be a valid one, or none.
\<close>

theorem slot_transitions_follow_cycle:
  assumes "cas_ok (proc s)"
  shows "(lock_at (proc (step t s)) r = lock_at (proc s) r
      \<or> (\<exists>v. lock_at (proc s) r = Some v \<and> v \<in> {IDLE, READY, RUNNING, DONE}
            \<and> lock_at (proc (step t s)) r = Some (successor v)))
    \<and> (lock_at (proc s) r = Some IDLE \<longrightarrow>
        remdups_adj (locks_seen r sched s) =
          map (\<lambda>k. Some ([IDLE, READY, RUNNING, DONE] ! (k mod 4)))
            [0..<length (remdups_adj (locks_seen r sched s))])"
proof -
  have 1: "lock_at (proc (step t s)) r = lock_at (proc s) r
      \<or> (\<exists>v. lock_at (proc s) r = Some v \<and> v \<in> {IDLE, READY, RUNNING, DONE}
            \<and> lock_at (proc (step t s)) r = Some (successor v))"
    using step_moves(1) [OF assms, of r t] unfolding lock_move_def .
  have 2: "remdups_adj (locks_seen r sched s) =
          map (\<lambda>k. Some ([IDLE, READY, RUNNING, DONE] ! (k mod 4)))
            [0..<length (remdups_adj (locks_seen r sched s))]"
    if "lock_at (proc s) r = Some IDLE"
    using locks_seen_cycle [OF assms, of r 0 sched] that
    by (simp add: cycle_0 cycle_def [abs_def])
  show ?thesis using 1 2 by blast
qed

lemma example_locks:
  "locks_seen (1, 0) sched0 example_round = 
    map Some [0, 0, 0, 0, 0, 1, 1, 1, 1, 2, 2, 3, 3, 0, 0, 0, 0, 0, 0, 0]"
  by (simp add: sched0_def example_round_def enter_def example_pool_def task_A_def task_B_def
      driver_step_def worker_step_def ready_def synchronize_def sweep_turn_def cas_wait_at_def
      thread_worker_def add_task_def load_def store_def lock_at_def atomic_cas_def
      IDLE_def READY_def RUNNING_def DONE_def NULL_def zero_Queue_def next_timeout_def
      wrap32_def MAX_WAIT_TIME_def)

theorem slot_transitions_follow_cycle_witness:
  "cas_ok (proc example_round) \<and> lock_at (proc example_round) (1, 0) = Some IDLE
   \<and> remdups_adj (locks_seen (1, 0) sched0 example_round) =
       [Some IDLE, Some READY, Some RUNNING, Some DONE, Some IDLE]"
proof -
  have ok: "cas_ok (proc example_round)"
    by (simp add: cas_ok_def example_round_def enter_def example_pool_def valid_cas_def)
  have idle: "lock_at (proc example_round) (1, 0) = Some IDLE"
    by (simp add: example_round_def enter_def example_pool_def lock_at_def load_def
        zero_Queue_def IDLE_def)
  have n: "length (remdups_adj (locks_seen (1, 0) sched0 example_round)) = 5"
    unfolding example_locks by simp
  have "remdups_adj (locks_seen (1, 0) sched0 example_round) =
      map (\<lambda>k. Some ([IDLE, READY, RUNNING, DONE] ! (k mod 4)))
        [0..<length (remdups_adj (locks_seen (1, 0) sched0 example_round))]"
    using slot_transitions_follow_cycle [OF ok, of Driver "(1, 0)" sched0] idle by blast
  then have "remdups_adj (locks_seen (1, 0) sched0 example_round) =
      map (\<lambda>k. Some ([IDLE, READY, RUNNING, DONE] ! (k mod 4))) [0..<5]"
    unfolding n .
  then show ?thesis
    using ok idle by (simp add: upt_rec)
qed


subsection \<open>A full round\<close>

lemma heap_store:
  "heap (store p r q) a =
    (if a = fst r then map_option (\<lambda>qs. qs[snd r := q]) (heap p a) else heap p a)"
  by (simp add: store_def split: option.splits)

lemma fields_store [simp]:
  "queues (store p r q) = queues p" "queue_count (store p r q) = queue_count p"
  "queue_pivot (store p r q) = queue_pivot p"
  by (simp_all add: store_def split: option.splits)

lemma fields_set_lock [simp]:
  "cas (set_lock p r v) = cas p" "queues (set_lock p r v) = queues p"
  "queue_count (set_lock p r v) = queue_count p" "queue_pivot (set_lock p r v) = queue_pivot p"
  "threads (set_lock p r v) = threads p"
  by (simp_all add: set_lock_def split: sum.splits)

lemma shape_load:
  assumes "shape p a N" "j < N"
  shows "\<exists>q. load p (a, j) = Inr q"
  using assms by (auto simp: shape_def load_def)

lemma lock_at_set_lock:
  assumes "shape p a N" "j < N"
  shows "lock_at (set_lock p (a, j) v) r = (if r = (a, j) then Some v else lock_at p r)"
proof -
  obtain q where q: "load p (a, j) = Inr q" using shape_load [OF assms] by blast
  show ?thesis using lock_at_store [OF q, of v r] q by (simp add: set_lock_def)
qed

lemma task_at_set_lock: "task_at (set_lock p r v) r' = task_at p r'"
proof (cases "load p r")
  case (Inl e)
  then show ?thesis by (simp add: set_lock_def)
next
  case (Inr q)
  then show ?thesis
    by (auto simp: set_lock_def task_at_def load_store [OF Inr])
qed

lemma task_at_threads [simp]: "task_at (p\<lparr>threads := x\<rparr>) r = task_at p r"
  by (simp add: task_at_def load_def)

lemma shape_set_lock: "shape p a N \<Longrightarrow> shape (set_lock p r v) a N"
  by (cases "load p r") (auto simp: shape_def set_lock_def heap_store)

lemma shape_threads:
  "shape p a N \<Longrightarrow> map fst x = map fst (threads p) \<Longrightarrow> shape (p\<lparr>threads := x\<rparr>) a N"
  by (simp add: shape_def)

lemma cas_wait_at_shape:
  assumes "shape p a N" "j < N" "lock_at p (a, j) = Some l"
  shows "cas_wait_at p (a, j) old repl t =
    Inr (if l = old then (set_lock p (a, j) repl, Return) else (p, Nap t (next_timeout t)))"
proof -
  obtain q where q: "load p (a, j) = Inr q" using shape_load [OF assms(1,2)] by blast
  obtain c where c: "cas p = Some c" "valid_cas c" using assms(1) by (auto simp: shape_def)
  have "lock q = l" using assms(3) q by (simp add: lock_at_def)
  then show ?thesis
    using cas_wait_at_valid [OF c q, of old repl t] q by (simp add: set_lock_def)
qed

lemma shape_thread:
  assumes "shape p a N" "k < N"
  shows "k < length (threads p)" "fst (threads p ! k) = (a, k)"
proof -
  have m: "map fst (threads p) = map (\<lambda>k. (a, k)) [0..<N]"
    using assms(1) by (simp add: shape_def)
  then have "length (threads p) = N" by (metis length_map length_upt diff_zero)
  then show l: "k < length (threads p)" using assms(2) by simp
  have "map fst (threads p) ! k = (a, k)" using m assms(2) by simp
  then show "fst (threads p ! k) = (a, k)" using l by simp
qed

lemma shape_thread_update:
  assumes "shape p a N" "k < N"
  shows "shape (p\<lparr>threads := (threads p)[k := ((a, k), w)]\<rparr>) a N"
proof -
  have "map fst ((threads p)[k := ((a, k), w)]) = (map fst (threads p))[k := (a, k)]"
    by (simp add: map_update)
  also have "\<dots> = map fst (threads p)"
    using shape_thread [OF assms] by (simp add: list_update_same_conv)
  finally show ?thesis using assms(1) by (intro shape_threads)
qed

lemma load_threads [simp]: "load (p\<lparr>threads := th\<rparr>) r = load p r"
  by (simp add: load_def)

lemma store_threads: "store (p\<lparr>threads := th\<rparr>) r q = (store p r q)\<lparr>threads := th\<rparr>"
  by (simp add: store_def split: option.splits)

lemma add_task_threads:
  "add_task fn a d s x (p\<lparr>threads := th\<rparr>) =
    (case add_task fn a d s x p of
       Ok p' \<Rightarrow> Ok (p'\<lparr>threads := th\<rparr>)
     | Crash e p' \<Rightarrow> Crash e (p'\<lparr>threads := th\<rparr>))"
proof (cases "queue_pivot p < 0")
  case True
  then show ?thesis by (simp add: add_task_def)
next
  case False
  show ?thesis
  proof (cases "load p (queues p, nat (queue_pivot p))")
    case (Inl e)
    with False show ?thesis by (simp add: add_task_def)
  next
    case (Inr q)
    with False show ?thesis by (simp add: add_task_def store_threads)
  qed
qed

lemma add_tasks_threads:
  "add_tasks ts (p\<lparr>threads := th\<rparr>) =
    (case add_tasks ts p of
       Ok p' \<Rightarrow> Ok (p'\<lparr>threads := th\<rparr>)
     | Crash e p' \<Rightarrow> Crash e (p'\<lparr>threads := th\<rparr>))"
proof (induction ts arbitrary: p)
  case Nil
  show ?case by simp
next
  case (Cons t ts)
  show ?case
    by (cases "add_task (func t) (args t) (dims t) (steps t) (data t) p")
      (simp_all add: add_task_threads Cons.IH)
qed

lemma add_task_Ok_shape:
  assumes "add_task fn b d s x p = Ok p'" "shape p a N"
  shows "shape p' a N" "threads p' = threads p"
proof -
  from assms obtain q where q: "load p (queues p, nat (queue_pivot p)) = Inr q"
    by (cases "load p (queues p, nat (queue_pivot p))") (simp_all add: add_task_def split: if_splits)
  with assms have p': "p' = (store p (queues p, nat (queue_pivot p))
      (q\<lparr>task := \<lparr>func = fn, args = b, dims = d, steps = s, data = x\<rparr>\<rparr>))
      \<lparr>queue_pivot := (if queue_pivot p + 1 = queue_count p then 0 else queue_pivot p + 1)\<rparr>"
    by (simp add: add_task_def split: if_splits)
  show "threads p' = threads p" unfolding p' by simp
  show "shape p' a N" using assms(2) unfolding p' by (auto simp: shape_def heap_store)
qed

lemma slot_calls_append:
  "slot_calls (s\<lparr>proc := P, calls := calls s @ cl\<rparr>) r = slot_calls s r @ filter (\<lambda>c. fst c = r) cl"
  by (simp add: slot_calls_def)

lemma worker_frame:
  assumes inv: "round_inv a N Ts s" and k: "k < N"
    and P: "P = proc s \<or> (P = set_lock (proc s) (a, k) v \<and> pending (script s) = [])"
    and cl: "cl = [] \<or> cl = [((a, k), Ts ! k)]"
    and g: "stage g (lock_at P (a, k)) w (slot_calls s (a, k) @ cl) ((a, k), Ts ! k)"
      "expected N (dpc s) (script s) k g"
  shows "round_inv a N Ts
    (s\<lparr>proc := P\<lparr>threads := (threads P)[k := ((a, k), w)]\<rparr>, calls := calls s @ cl\<rparr>)"
    (is "round_inv a N Ts ?s'")
proof -
  let ?p = "proc s"
  have sh: "shape ?p a N" and fl: "fault s = None" using inv by (simp_all add: round_inv_def)
  have thP: "threads P = threads ?p"
  proof (cases "P = ?p")
    case False
    with P have "P = set_lock ?p (a, k) v" by simp
    then show ?thesis by simp
  qed simp
  have shP: "shape P a N"
  proof (cases "P = ?p")
    case True
    then show ?thesis using sh by simp
  next
    case False
    with P have "P = set_lock ?p (a, k) v" by simp
    then show ?thesis using shape_set_lock [OF sh] by simp
  qed
  have sh': "shape (proc ?s') a N"
    using shape_thread_update [OF shP k, of w] by simp
  obtain p' where p': "add_tasks (pending (script s)) ?p = Ok p'"
    "\<forall>j<N. task_at p' (a, j) = Some (Ts ! j)"
    using inv by (auto simp: round_inv_def)
  have tasks: "\<exists>p''. add_tasks (pending (script ?s')) (proc ?s') = Ok p''
            \<and> (\<forall>j<N. task_at p'' (a, j) = Some (Ts ! j))"
  proof (cases "P = ?p")
    case True
    then show ?thesis using p' by (simp add: add_tasks_threads)
  next
    case False
    with P have e: "P = set_lock ?p (a, k) v" "pending (script s) = []" by simp_all
    from p' e(2) have "\<forall>j<N. task_at ?p (a, j) = Some (Ts ! j)" by simp
    then show ?thesis unfolding e(1) using e(2) by (simp add: task_at_set_lock)
  qed
  have lk: "lock_at P (a, j) = lock_at ?p (a, j)" if "j \<noteq> k" for j
  proof (cases "P = ?p")
    case True
    then show ?thesis by simp
  next
    case False
    with P have "P = set_lock ?p (a, k) v" by simp
    then show ?thesis using lock_at_set_lock [OF sh k, of v "(a, j)"] that by simp
  qed
  have fk: "filter (\<lambda>c. fst c = (a, j)) cl = []" if "j \<noteq> k" for j
  proof (cases "cl = []")
    case False
    with cl have "cl = [((a, k), Ts ! k)]" by simp
    then show ?thesis using that by simp
  qed simp
  have fk': "filter (\<lambda>c. fst c = (a, k)) cl = cl"
  proof (cases "cl = []")
    case False
    with cl have "cl = [((a, k), Ts ! k)]" by simp
    then show ?thesis by simp
  qed simp
  have kl: "k < length (threads ?p)" using shape_thread(1) [OF sh k] .
  have st: "\<exists>g. at_stage a Ts ?s' j g \<and> expected N (dpc s) (script s) j g" if j: "j < N" for j
  proof (cases "j = k")
    case True
    have "at_stage a Ts ?s' k g"
      using g(1) kl thP by (simp add: at_stage_def slot_calls_append fk')
    then show ?thesis using True g(2) by blast
  next
    case False
    obtain g0 where g0: "at_stage a Ts s j g0" "expected N (dpc s) (script s) j g0"
      using inv j by (auto simp: round_inv_def)
    have "at_stage a Ts ?s' j g0"
      using g0(1) False lk [OF False] fk [OF False] thP
      by (simp add: at_stage_def slot_calls_append)
    then show ?thesis using g0(2) by blast
  qed
  have dr: "driver_form N (dpc s) (script s)" using inv by (simp add: round_inv_def)
  have fn: "\<forall>j<N. func (Ts ! j) \<noteq> NULL" using inv by (simp add: round_inv_def)
  have "\<forall>c\<in>set (calls s). \<exists>j<N. fst c = (a, j)" using inv by (simp add: round_inv_def)
  moreover have "\<forall>c\<in>set cl. \<exists>j<N. fst c = (a, j)"
  proof (cases "cl = []")
    case False
    with cl have "cl = [((a, k), Ts ! k)]" by simp
    then show ?thesis using k by simp
  qed simp
  ultimately have cb: "\<forall>c\<in>set (calls ?s'). \<exists>j<N. fst c = (a, j)" by auto
  show ?thesis
    unfolding round_inv_def using fl sh' fn tasks dr st cb by simp
qed

lemma pending_map_AddTask [simp]: "pending (map AddTask ts @ cs) = ts @ pending cs"
  by (induction ts) simp_all

lemma released_pending:
  assumes "driver_form N d sc" "j < released N d sc"
  shows "pending sc = []"
  using assms by (cases d) (auto split: if_splits)

lemma states_distinct [simp]:
  "IDLE \<noteq> READY" "IDLE \<noteq> RUNNING" "IDLE \<noteq> DONE" "READY \<noteq> RUNNING" "READY \<noteq> DONE"
  "RUNNING \<noteq> DONE" "READY \<noteq> IDLE" "RUNNING \<noteq> IDLE" "DONE \<noteq> IDLE" "RUNNING \<noteq> READY"
  "DONE \<noteq> READY" "DONE \<noteq> RUNNING"
  by (simp_all add: IDLE_def READY_def RUNNING_def DONE_def)

lemma worker_step_WaitReady:
  assumes "shape (proc s) a N" "k < N" "snd (threads (proc s) ! k) = WaitReady t"
    "lock_at (proc s) (a, k) = Some l"
  shows "worker_step k s =
    (if l = READY then
       s\<lparr>proc := (set_lock (proc s) (a, k) RUNNING)
              \<lparr>threads := (threads (set_lock (proc s) (a, k) RUNNING))[k := ((a, k), CallTask)]\<rparr>,
         calls := calls s @ []\<rparr>
     else
       s\<lparr>proc := (proc s)\<lparr>threads := (threads (proc s))[k := ((a, k), WaitReady (next_timeout t))]\<rparr>,
         calls := calls s @ []\<rparr>)"
proof -
  have th: "threads (proc s) ! k = ((a, k), WaitReady t)"
    using shape_thread(2) [OF assms(1,2)] assms(3) by (cases "threads (proc s) ! k") simp
  show ?thesis
    using shape_thread(1) [OF assms(1,2)] th cas_wait_at_shape [OF assms(1,2,4), of READY RUNNING t]
    by (simp add: worker_step_def thread_worker_def)
qed

lemma worker_step_WaitDone:
  assumes "shape (proc s) a N" "k < N" "snd (threads (proc s) ! k) = WaitDone t"
    "lock_at (proc s) (a, k) = Some l"
  shows "worker_step k s =
    (if l = RUNNING then
       s\<lparr>proc := (set_lock (proc s) (a, k) DONE)
              \<lparr>threads := (threads (set_lock (proc s) (a, k) DONE))[k := ((a, k), WaitReady 1)]\<rparr>,
         calls := calls s @ []\<rparr>
     else
       s\<lparr>proc := (proc s)\<lparr>threads := (threads (proc s))[k := ((a, k), WaitDone (next_timeout t))]\<rparr>,
         calls := calls s @ []\<rparr>)"
proof -
  have th: "threads (proc s) ! k = ((a, k), WaitDone t)"
    using shape_thread(2) [OF assms(1,2)] assms(3) by (cases "threads (proc s) ! k") simp
  show ?thesis
    using shape_thread(1) [OF assms(1,2)] th cas_wait_at_shape [OF assms(1,2,4), of RUNNING DONE t]
    by (simp add: worker_step_def thread_worker_def)
qed

lemma worker_step_CallTask:
  assumes "shape (proc s) a N" "k < N" "snd (threads (proc s) ! k) = CallTask"
    "task_at (proc s) (a, k) = Some T" "func T \<noteq> NULL"
  shows "worker_step k s =
       s\<lparr>proc := (proc s)\<lparr>threads := (threads (proc s))[k := ((a, k), WaitDone 1)]\<rparr>,
         calls := calls s @ [((a, k), T)]\<rparr>"
proof -
  have th: "threads (proc s) ! k = ((a, k), CallTask)"
    using shape_thread(2) [OF assms(1,2)] assms(3) by (cases "threads (proc s) ! k") simp
  obtain q where q: "load (proc s) (a, k) = Inr q" using shape_load [OF assms(1,2)] by blast
  with assms(4) have "task q = T" by (simp add: task_at_def)
  then show ?thesis
    using shape_thread(1) [OF assms(1,2)] th q assms(5)
    by (simp add: worker_step_def thread_worker_def)
qed

lemma round_inv_worker:
  assumes inv: "round_inv a N Ts s" and k: "k < N"
  shows "round_inv a N Ts (worker_step k s)"
proof -
  let ?p = "proc s"
  have sh: "shape ?p a N" and df: "driver_form N (dpc s) (script s)"
    and fn: "func (Ts ! k) \<noteq> NULL"
    using inv k by (simp_all add: round_inv_def)
  obtain g where g: "at_stage a Ts s k g" "expected N (dpc s) (script s) k g"
    using inv k by (auto simp: round_inv_def)
  let ?l = "lock_at ?p (a, k)" and ?w = "snd (threads ?p ! k)" and ?cs = "slot_calls s (a, k)"
  have st: "stage g ?l ?w ?cs ((a, k), Ts ! k)" using g(1) by (simp add: at_stage_def)
  have pe: "pending (script s) = []" if "1 \<le> g" "g \<le> 4"
  proof -
    have "k < released N (dpc s) (script s)"
      using g(2) that by (auto simp: expected_def split: if_splits)
    then show ?thesis using released_pending [OF df] by blast
  qed
  from st consider
      (wait) t where "?w = WaitReady t" "g = 0 \<or> g = 4 \<or> g = 5" "?l = Some IDLE \<or> ?l = Some DONE"
    | (claim) t where "?w = WaitReady t" "g = 1" "?l = Some READY" "?cs = []"
    | (call) "?w = CallTask" "g = 2" "?l = Some RUNNING" "?cs = []"
    | (finish) t where "?w = WaitDone t" "g = 3" "?l = Some RUNNING" "?cs = [((a, k), Ts ! k)]"
    unfolding stage_def by (cases ?w) auto
  then show ?thesis
  proof cases
    case wait
    then obtain l where l: "?l = Some l" "l \<noteq> READY" by auto
    have e: "worker_step k s =
       s\<lparr>proc := ?p\<lparr>threads := (threads ?p)[k := ((a, k), WaitReady (next_timeout t))]\<rparr>,
         calls := calls s @ []\<rparr>"
      using worker_step_WaitReady [OF sh k wait(1) l(1)] l(2) by simp
    have "stage g ?l (WaitReady (next_timeout t)) (?cs @ []) ((a, k), Ts ! k)"
      using st wait(1) by (simp add: stage_def)
    then show ?thesis
      unfolding e by (intro worker_frame [OF inv k _ _ _ g(2)]) simp_all
  next
    case claim
    have e: "worker_step k s =
       s\<lparr>proc := (set_lock ?p (a, k) RUNNING)
              \<lparr>threads := (threads (set_lock ?p (a, k) RUNNING))[k := ((a, k), CallTask)]\<rparr>,
         calls := calls s @ []\<rparr>"
      using worker_step_WaitReady [OF sh k claim(1,3)] by simp
    have "stage 2 (lock_at (set_lock ?p (a, k) RUNNING) (a, k)) CallTask (?cs @ []) ((a, k), Ts ! k)"
      using claim(4) lock_at_set_lock [OF sh k] by (simp add: stage_def)
    moreover have "expected N (dpc s) (script s) k 2"
      using g(2) claim(2) by (simp add: expected_def split: if_splits)
    ultimately show ?thesis
      unfolding e using pe claim(2)
      by (intro worker_frame [OF inv k, where v = RUNNING and g = 2]) simp_all
  next
    case call
    have "pending (script s) = []" using pe call(2) by simp
    then have ta: "task_at ?p (a, k) = Some (Ts ! k)"
      using inv k by (auto simp: round_inv_def)
    have e: "worker_step k s =
       s\<lparr>proc := ?p\<lparr>threads := (threads ?p)[k := ((a, k), WaitDone 1)]\<rparr>,
         calls := calls s @ [((a, k), Ts ! k)]\<rparr>"
      by (rule worker_step_CallTask [OF sh k call(1) ta fn])
    have "stage 3 ?l (WaitDone 1) (?cs @ [((a, k), Ts ! k)]) ((a, k), Ts ! k)"
      using call by (simp add: stage_def)
    moreover have "expected N (dpc s) (script s) k 3"
      using g(2) call(2) by (simp add: expected_def split: if_splits)
    ultimately show ?thesis
      unfolding e by (intro worker_frame [OF inv k, where g = 3]) simp_all
  next
    case finish
    have e: "worker_step k s =
       s\<lparr>proc := (set_lock ?p (a, k) DONE)
              \<lparr>threads := (threads (set_lock ?p (a, k) DONE))[k := ((a, k), WaitReady 1)]\<rparr>,
         calls := calls s @ []\<rparr>"
      using worker_step_WaitDone [OF sh k finish(1,3)] by simp
    have "stage 4 (lock_at (set_lock ?p (a, k) DONE) (a, k)) (WaitReady 1) (?cs @ []) ((a, k), Ts ! k)"
      using finish(4) lock_at_set_lock [OF sh k] by (simp add: stage_def)
    moreover have "expected N (dpc s) (script s) k 4"
      using g(2) finish(2) by (simp add: expected_def split: if_splits)
    ultimately show ?thesis
      unfolding e using pe finish(2)
      by (intro worker_frame [OF inv k, where v = DONE and g = 4]) simp_all
  qed
qed

lemma worker_step_outside:
  assumes "shape (proc s) a N" "\<not> k < N"
  shows "worker_step k s = s"
proof -
  have "map fst (threads (proc s)) = map (\<lambda>k. (a, k)) [0..<N]"
    using assms(1) by (simp add: shape_def)
  then have "length (threads (proc s)) = N" by (metis length_map length_upt diff_zero)
  then show ?thesis using assms(2) by (simp add: worker_step_def)
qed

lemma sweep_turn_shape:
  assumes "shape p a N" "0 \<le> i" "i < int N" "lock_at p (a, nat i) = Some l"
  shows "sweep_turn old repl i t p =
    Inr (if l = old then (set_lock p (a, nat i) repl, Sweeping (i + 1) 1)
         else (p, Sweeping i (next_timeout t)))"
proof -
  have n: "nat i < N" using assms(2,3) by simp
  have q: "queues p = a" "queue_count p = int N" using assms(1) by (simp_all add: shape_def)
  show ?thesis
    using cas_wait_at_shape [OF assms(1) n assms(4), of old repl t] q assms(3)
    by (simp add: sweep_turn_def)
qed

lemma sweep_turn_end:
  assumes "shape p a N" "\<not> i < int N"
  shows "sweep_turn old repl i t p = Inr (p, Swept)"
  using assms by (simp add: sweep_turn_def shape_def)

lemma driver_frame0:
  assumes inv: "round_inv a N Ts s"
    and df: "driver_form N d' sc'" and pe: "pending sc' = pending (script s)"
    and ex: "\<And>j g. j < N \<Longrightarrow> expected N (dpc s) (script s) j g \<Longrightarrow> expected N d' sc' j g"
  shows "round_inv a N Ts (s\<lparr>dpc := d', script := sc'\<rparr>)"
proof -
  have st: "\<exists>g. at_stage a Ts (s\<lparr>dpc := d', script := sc'\<rparr>) j g \<and> expected N d' sc' j g"
    if j: "j < N" for j
  proof -
    obtain g0 where g0: "at_stage a Ts s j g0" "expected N (dpc s) (script s) j g0"
      using inv j by (auto simp: round_inv_def)
    have "at_stage a Ts (s\<lparr>dpc := d', script := sc'\<rparr>) j g0"
      using g0(1) by (simp add: at_stage_def slot_calls_def)
    then show ?thesis using ex [OF j g0(2)] by blast
  qed
  show ?thesis
    using inv df pe st unfolding round_inv_def by simp
qed

lemma driver_frame:
  assumes inv: "round_inv a N Ts s" and k: "k < N"
    and pe: "pending (script s) = []"
    and df: "driver_form N d' (script s)"
    and g: "stage g (lock_at (set_lock (proc s) (a, k) v) (a, k)) (snd (threads (proc s) ! k))
        (slot_calls s (a, k)) ((a, k), Ts ! k)"
      "expected N d' (script s) k g"
    and ex: "\<And>j g. j < N \<Longrightarrow> j \<noteq> k \<Longrightarrow> expected N (dpc s) (script s) j g
        \<Longrightarrow> expected N d' (script s) j g"
  shows "round_inv a N Ts (s\<lparr>proc := set_lock (proc s) (a, k) v, dpc := d'\<rparr>)"
    (is "round_inv a N Ts ?s'")
proof -
  let ?p = "proc s"
  have sh: "shape ?p a N" and fl: "fault s = None" using inv by (simp_all add: round_inv_def)
  have sh': "shape (proc ?s') a N" using shape_set_lock [OF sh] by simp
  have "\<forall>j<N. task_at ?p (a, j) = Some (Ts ! j)"
    using inv pe by (auto simp: round_inv_def)
  then have tasks: "\<exists>p''. add_tasks (pending (script ?s')) (proc ?s') = Ok p''
            \<and> (\<forall>j<N. task_at p'' (a, j) = Some (Ts ! j))"
    using pe by (simp add: task_at_set_lock)
  have st: "\<exists>g. at_stage a Ts ?s' j g \<and> expected N d' (script s) j g" if j: "j < N" for j
  proof (cases "j = k")
    case True
    have "at_stage a Ts ?s' k g"
      using g(1) by (simp add: at_stage_def slot_calls_def)
    then show ?thesis using True g(2) by blast
  next
    case False
    obtain g0 where g0: "at_stage a Ts s j g0" "expected N (dpc s) (script s) j g0"
      using inv j by (auto simp: round_inv_def)
    have "at_stage a Ts ?s' j g0"
      using g0(1) False lock_at_set_lock [OF sh k, of v "(a, j)"]
      by (simp add: at_stage_def slot_calls_def)
    then show ?thesis using ex [OF j False g0(2)] by blast
  qed
  have fn: "\<forall>j<N. func (Ts ! j) \<noteq> NULL" using inv by (simp add: round_inv_def)
  have cb: "\<forall>c\<in>set (calls s). \<exists>j<N. fst c = (a, j)" using inv by (simp add: round_inv_def)
  show ?thesis
    unfolding round_inv_def using fl sh' fn tasks df st cb by simp
qed

lemma round_inv_Between:
  assumes inv: "round_inv a N Ts s" and b: "dpc s = Between"
  shows "round_inv a N Ts (driver_step s)"
proof (cases "script s")
  case Nil
  with b show ?thesis using inv by (simp add: driver_step_def)
next
  case (Cons c cs)
  have df: "driver_form N Between (c # cs)"
    using inv b Cons by (simp add: round_inv_def)
  show ?thesis
  proof (cases c)
    case (AddTask t)
    with df Cons obtain ts where ts: "cs = map AddTask ts @ [Ready, Synchronize]"
      by (auto simp: Cons_eq_append_conv Cons_eq_map_conv)
    obtain p' where p': "add_tasks (t # ts) (proc s) = Ok p'"
      "\<forall>j<N. task_at p' (a, j) = Some (Ts ! j)"
      using inv Cons AddTask ts by (auto simp: round_inv_def)
    then obtain p1 where p1: "add_task (func t) (args t) (dims t) (steps t) (data t) (proc s) = Ok p1"
      "add_tasks ts p1 = Ok p'"
      by (cases "add_task (func t) (args t) (dims t) (steps t) (data t) (proc s)") simp_all
    have e: "driver_step s = s\<lparr>proc := p1, script := cs\<rparr>"
      using b Cons AddTask p1(1) by (simp add: driver_step_def)
    have sh: "shape (proc s) a N" and fl: "fault s = None"
      and fn: "\<forall>j<N. func (Ts ! j) \<noteq> NULL"
      using inv by (simp_all add: round_inv_def)
    have sh1: "shape p1 a N" and th1: "threads p1 = threads (proc s)"
      using add_task_Ok_shape [OF p1(1) sh] by simp_all
    have lk: "lock_at p1 r = lock_at (proc s) r" for r
      using add_task_Ok [OF p1(1)] by simp
    have st: "\<exists>g. at_stage a Ts (s\<lparr>proc := p1, script := cs\<rparr>) j g \<and> expected N Between cs j g"
      if j: "j < N" for j
    proof -
      obtain g0 where g0: "at_stage a Ts s j g0" "expected N (dpc s) (script s) j g0"
        using inv j by (auto simp: round_inv_def)
      have "at_stage a Ts (s\<lparr>proc := p1, script := cs\<rparr>) j g0"
        using g0(1) lk th1 by (simp add: at_stage_def slot_calls_def)
      moreover have "expected N Between cs j g0"
        using g0(2) b Cons ts by (simp add: expected_def)
      ultimately show ?thesis by blast
    qed
    have cb: "\<forall>c\<in>set (calls s). \<exists>j<N. fst c = (a, j)"
      using inv by (simp add: round_inv_def)
    have "driver_form N Between cs" using ts by auto
    then show ?thesis
      unfolding e round_inv_def using fl sh1 fn p1(2) p'(2) ts st b cb by simp
  next
    case Ready
    with df Cons have cs: "cs = [Synchronize]"
      by (auto simp: Cons_eq_append_conv Cons_eq_map_conv)
    have e: "driver_step s = s\<lparr>dpc := InReady 0 1, script := cs\<rparr>"
      using b Cons Ready by (simp add: driver_step_def)
    show ?thesis
      unfolding e using b Cons Ready cs
      by (intro driver_frame0 [OF inv]) (simp_all add: expected_def)
  next
    case Synchronize
    with df Cons have cs: "cs = []"
      by (auto simp: Cons_eq_append_conv Cons_eq_map_conv)
    have e: "driver_step s = s\<lparr>dpc := InSynchronize 0 1, script := cs\<rparr>"
      using b Cons Synchronize by (simp add: driver_step_def)
    show ?thesis
      unfolding e using b Cons Synchronize cs
      by (intro driver_frame0 [OF inv]) (simp_all add: expected_def)
  qed
qed

lemma round_inv_InReady:
  assumes inv: "round_inv a N Ts s" and b: "dpc s = InReady i t"
  shows "round_inv a N Ts (driver_step s)"
proof -
  let ?p = "proc s"
  have sh: "shape ?p a N" using inv by (simp add: round_inv_def)
  have df: "0 \<le> i" "i \<le> int N" "script s = [Synchronize]"
    using inv b by (simp_all add: round_inv_def)
  show ?thesis
  proof (cases "i < int N")
    case False
    have e: "driver_step s = s\<lparr>dpc := Between, script := script s\<rparr>"
      using b sweep_turn_end [OF sh False, of IDLE READY t]
      by (simp add: driver_step_def ready_def)
    have "i = int N" using False df(2) by simp
    then show ?thesis
      unfolding e using b df
      by (intro driver_frame0 [OF inv]) (simp_all add: expected_def)
  next
    case True
    let ?k = "nat i"
    have k: "?k < N" using True df(1) by simp
    obtain g where g: "at_stage a Ts s ?k g" "expected N (dpc s) (script s) ?k g"
      using inv k by (auto simp: round_inv_def)
    have g0: "g = 0" using g(2) b by (simp add: expected_def)
    have st: "lock_at ?p (a, ?k) = Some IDLE" "waits_ready (snd (threads ?p ! ?k))"
      "slot_calls s (a, ?k) = []"
      using g(1) g0 by (simp_all add: at_stage_def stage_def)
    have e: "driver_step s = s\<lparr>proc := set_lock ?p (a, ?k) READY, dpc := InReady (i + 1) 1\<rparr>"
      using b sweep_turn_shape [OF sh df(1) True st(1), of IDLE READY t]
      by (simp add: driver_step_def ready_def)
    have n1: "nat (i + 1) = Suc ?k" using df(1) by simp
    have s1: "stage 1 (lock_at (set_lock ?p (a, ?k) READY) (a, ?k)) (snd (threads ?p ! ?k))
        (slot_calls s (a, ?k)) ((a, ?k), Ts ! ?k)"
      using st lock_at_set_lock [OF sh k] by (simp add: stage_def)
    show ?thesis
      unfolding e
    proof (rule driver_frame [OF inv k _ _ s1])
      show "pending (script s) = []" using df(3) by simp
      show "driver_form N (InReady (i + 1) 1) (script s)" using df True by simp
      show "expected N (InReady (i + 1) 1) (script s) ?k 1"
        using n1 by (simp add: expected_def)
      show "expected N (InReady (i + 1) 1) (script s) j g'"
        if "j < N" "j \<noteq> ?k" "expected N (dpc s) (script s) j g'" for j g'
        using that b n1 by (auto simp: expected_def split: if_splits)
    qed
  qed
qed

lemma round_inv_InSynchronize:
  assumes inv: "round_inv a N Ts s" and b: "dpc s = InSynchronize i t"
  shows "round_inv a N Ts (driver_step s)"
proof -
  let ?p = "proc s"
  have sh: "shape ?p a N" using inv by (simp add: round_inv_def)
  have df: "0 \<le> i" "i \<le> int N" "script s = []"
    using inv b by (simp_all add: round_inv_def)
  show ?thesis
  proof (cases "i < int N")
    case False
    have e: "driver_step s = s\<lparr>dpc := Between, script := script s\<rparr>"
      using b sweep_turn_end [OF sh False, of DONE IDLE t]
      by (simp add: driver_step_def synchronize_def)
    have "i = int N" using False df(2) by simp
    then show ?thesis
      unfolding e using b df
      by (intro driver_frame0 [OF inv]) (simp_all add: expected_def)
  next
    case True
    let ?k = "nat i"
    have k: "?k < N" using True df(1) by simp
    obtain g where g: "at_stage a Ts s ?k g" "expected N (dpc s) (script s) ?k g"
      using inv k by (auto simp: round_inv_def)
    have g14: "1 \<le> g" "g \<le> 4" using g(2) b k by (simp_all add: expected_def)
    have stg: "stage g (lock_at ?p (a, ?k)) (snd (threads ?p ! ?k)) (slot_calls s (a, ?k))
        ((a, ?k), Ts ! ?k)"
      using g(1) by (simp add: at_stage_def)
    obtain l where l: "lock_at ?p (a, ?k) = Some l"
      using stg by (auto simp: stage_def)
    show ?thesis
    proof (cases "l = DONE")
      case True
      with stg l g14 have st: "waits_ready (snd (threads ?p ! ?k))"
        "slot_calls s (a, ?k) = [((a, ?k), Ts ! ?k)]"
        by (auto simp: stage_def)
      have e: "driver_step s =
          s\<lparr>proc := set_lock ?p (a, ?k) IDLE, dpc := InSynchronize (i + 1) 1\<rparr>"
        using b sweep_turn_shape [OF sh df(1) \<open>i < int N\<close> l, of DONE IDLE t] True
        by (simp add: driver_step_def synchronize_def)
      have n1: "nat (i + 1) = Suc ?k" using df(1) by simp
      have s5: "stage 5 (lock_at (set_lock ?p (a, ?k) IDLE) (a, ?k)) (snd (threads ?p ! ?k))
          (slot_calls s (a, ?k)) ((a, ?k), Ts ! ?k)"
        using st lock_at_set_lock [OF sh k] by (simp add: stage_def)
      show ?thesis
        unfolding e
      proof (rule driver_frame [OF inv k _ _ s5])
        show "pending (script s) = []" using df(3) by simp
        show "driver_form N (InSynchronize (i + 1) 1) (script s)"
          using df \<open>i < int N\<close> by simp
        show "expected N (InSynchronize (i + 1) 1) (script s) ?k 5"
          using n1 by (simp add: expected_def)
        show "expected N (InSynchronize (i + 1) 1) (script s) j g'"
          if "j < N" "j \<noteq> ?k" "expected N (dpc s) (script s) j g'" for j g'
          using that b n1 by (auto simp: expected_def split: if_splits)
      qed
    next
      case False
      have e: "driver_step s = s\<lparr>dpc := InSynchronize i (next_timeout t), script := script s\<rparr>"
        using b sweep_turn_shape [OF sh df(1) \<open>i < int N\<close> l, of DONE IDLE t] False
        by (simp add: driver_step_def synchronize_def)
      show ?thesis
        unfolding e using b df
        by (intro driver_frame0 [OF inv]) (auto simp: expected_def split: if_splits)
    qed
  qed
qed

lemma round_inv_step:
  assumes "round_inv a N Ts s"
  shows "round_inv a N Ts (step t s)"
proof -
  have fl: "fault s = None" and sh: "shape (proc s) a N"
    using assms by (simp_all add: round_inv_def)
  show ?thesis
  proof (cases t)
    case Driver
    show ?thesis
      using round_inv_Between [OF assms] round_inv_InReady [OF assms]
        round_inv_InSynchronize [OF assms] fl Driver
      by (cases "dpc s") simp_all
  next
    case (Worker k)
    show ?thesis
      using round_inv_worker [OF assms, of k] worker_step_outside [OF sh, of k] assms fl Worker
      by (cases "k < N") simp_all
  qed
qed

lemma round_inv_run:
  "round_inv a N Ts s \<Longrightarrow> round_inv a N Ts (run sched s)"
  by (induction sched arbitrary: s) (simp_all add: round_inv_step)

lemma sum_change:
  fixes f f' :: "nat \<Rightarrow> nat"
  assumes "k < N" "\<And>j. j < N \<Longrightarrow> j \<noteq> k \<Longrightarrow> f' j = f j"
  shows "(\<Sum>j<N. f' j) + f k = (\<Sum>j<N. f j) + f' k"
proof -
  have k: "k \<in> {..<N}" using assms(1) by simp
  have "(\<Sum>j\<in>{..<N} - {k}. f' j) = (\<Sum>j\<in>{..<N} - {k}. f j)"
    using assms(2) by (intro sum.cong) auto
  then show ?thesis
    using sum.remove [OF _ k, of f] sum.remove [OF _ k, of f'] by simp
qed

lemma sum_same:
  fixes f f' :: "nat \<Rightarrow> nat"
  assumes "\<And>j. j < N \<Longrightarrow> f' j = f j"
  shows "(\<Sum>j<N. f' j) = (\<Sum>j<N. f j)"
  using assms by (intro sum.cong) auto

lemma stage_rank:
  assumes "stage g l w cs c"
  shows "rank l w = (if g = 1 then 3 else if g = 2 then 2 else if g = 3 then 1 else 0)"
  using assms unfolding stage_def rank_def by (cases w) auto

lemma progress_worker:
  assumes inv: "round_inv a N Ts s" and k: "k < N"
    and g: "at_stage a Ts s k g" "g = 1 \<or> g = 2 \<or> g = 3" "pending (script s) = []"
  shows "potential a N (worker_step k s) < potential a N s"
proof -
  let ?p = "proc s"
  have sh: "shape ?p a N" and fn: "func (Ts ! k) \<noteq> NULL"
    using inv k by (simp_all add: round_inv_def)
  let ?l = "lock_at ?p (a, k)" and ?w = "snd (threads ?p ! k)" and ?cs = "slot_calls s (a, k)"
  have st: "stage g ?l ?w ?cs ((a, k), Ts ! k)" using g(1) by (simp add: at_stage_def)
  have kl: "k < length (threads ?p)" using shape_thread(1) [OF sh k] .
  have r0: "slot_rank a s k = (if g = 1 then 3 else if g = 2 then 2 else 1)"
    using stage_rank [OF st] g(2) by (auto simp: slot_rank_def)
  have ta: "task_at ?p (a, k) = Some (Ts ! k)"
    using inv k g(3) by (auto simp: round_inv_def)
  from st g(2) consider
      (claim) t where "?w = WaitReady t" "g = 1" "?l = Some READY"
    | (call) "?w = CallTask" "g = 2" "?l = Some RUNNING"
    | (finish) t where "?w = WaitDone t" "g = 3" "?l = Some RUNNING"
    unfolding stage_def by (cases ?w) auto
  then obtain P w cl where e: "worker_step k s =
        s\<lparr>proc := P\<lparr>threads := (threads ?p)[k := ((a, k), w)]\<rparr>, calls := cl\<rparr>"
      and same: "\<And>j. j \<noteq> k \<Longrightarrow> lock_at P (a, j) = lock_at ?p (a, j)"
      and r1: "Suc (rank (lock_at P (a, k)) w) = slot_rank a s k"
  proof cases
    case claim
    have "worker_step k s =
       s\<lparr>proc := (set_lock ?p (a, k) RUNNING)\<lparr>threads := (threads ?p)[k := ((a, k), CallTask)]\<rparr>,
         calls := calls s\<rparr>"
      using worker_step_WaitReady [OF sh k claim(1,3)] by simp
    moreover have "lock_at (set_lock ?p (a, k) RUNNING) (a, j) = lock_at ?p (a, j)" if "j \<noteq> k" for j
      using lock_at_set_lock [OF sh k, of RUNNING "(a, j)"] that by simp
    moreover have "Suc (rank (lock_at (set_lock ?p (a, k) RUNNING) (a, k)) CallTask) = slot_rank a s k"
      using lock_at_set_lock [OF sh k, of RUNNING "(a, k)"] r0 claim(2) by (simp add: rank_def)
    ultimately show ?thesis using that by blast
  next
    case call
    have "worker_step k s =
       s\<lparr>proc := ?p\<lparr>threads := (threads ?p)[k := ((a, k), WaitDone 1)]\<rparr>,
         calls := calls s @ [((a, k), Ts ! k)]\<rparr>"
      by (rule worker_step_CallTask [OF sh k call(1) ta fn])
    moreover have "Suc (rank (lock_at ?p (a, k)) (WaitDone 1)) = slot_rank a s k"
      using r0 call by (simp add: rank_def)
    ultimately show ?thesis using that by blast
  next
    case finish
    have "worker_step k s =
       s\<lparr>proc := (set_lock ?p (a, k) DONE)\<lparr>threads := (threads ?p)[k := ((a, k), WaitReady 1)]\<rparr>,
         calls := calls s\<rparr>"
      using worker_step_WaitDone [OF sh k finish(1,3)] by simp
    moreover have "lock_at (set_lock ?p (a, k) DONE) (a, j) = lock_at ?p (a, j)" if "j \<noteq> k" for j
      using lock_at_set_lock [OF sh k, of DONE "(a, j)"] that by simp
    moreover have "Suc (rank (lock_at (set_lock ?p (a, k) DONE) (a, k)) (WaitReady 1)) = slot_rank a s k"
      using lock_at_set_lock [OF sh k, of DONE "(a, k)"] r0 finish(2) by (simp add: rank_def)
    ultimately show ?thesis using that by blast
  qed
  let ?s' = "worker_step k s"
  have o: "slot_rank a ?s' j = slot_rank a s j" if "j < N" "j \<noteq> k" for j
    unfolding e using same that by (simp add: slot_rank_def)
  have n: "slot_rank a ?s' k = rank (lock_at P (a, k)) w"
    unfolding e using kl by (simp add: slot_rank_def)
  have "(\<Sum>j<N. slot_rank a ?s' j) + slot_rank a s k = (\<Sum>j<N. slot_rank a s j) + slot_rank a ?s' k"
    by (rule sum_change [OF k o])
  then have "(\<Sum>j<N. slot_rank a ?s' j) < (\<Sum>j<N. slot_rank a s j)"
    using n r1 by simp
  moreover have "dpc ?s' = dpc s" "script ?s' = script s" unfolding e by simp_all
  ultimately show ?thesis by (simp add: potential_def)
qed

lemma progress_Between:
  assumes inv: "round_inv a N Ts s" and b: "dpc s = Between" and ne: "script s \<noteq> []"
  shows "potential a N (driver_step s) < potential a N s"
proof -
  obtain c cs where Cons: "script s = c # cs" using ne by (cases "script s") auto
  have df: "driver_form N Between (c # cs)"
    using inv b Cons by (simp add: round_inv_def)
  show ?thesis
  proof (cases c)
    case (AddTask t)
    with df Cons obtain ts where ts: "cs = map AddTask ts @ [Ready, Synchronize]"
      by (auto simp: Cons_eq_append_conv Cons_eq_map_conv)
    obtain p' where p': "add_tasks (t # ts) (proc s) = Ok p'"
      using inv Cons AddTask ts by (auto simp: round_inv_def)
    then obtain p1 where p1: "add_task (func t) (args t) (dims t) (steps t) (data t) (proc s) = Ok p1"
      by (cases "add_task (func t) (args t) (dims t) (steps t) (data t) (proc s)") simp_all
    have e: "driver_step s = s\<lparr>proc := p1, script := cs\<rparr>"
      using b Cons AddTask p1 by (simp add: driver_step_def)
    have sh: "shape (proc s) a N" using inv by (simp add: round_inv_def)
    have th1: "threads p1 = threads (proc s)"
      using add_task_Ok_shape [OF p1 sh] by simp
    have lk: "lock_at p1 r = lock_at (proc s) r" for r
      using add_task_Ok [OF p1] by simp
    have "(\<Sum>j<N. slot_rank a (driver_step s) j) = (\<Sum>j<N. slot_rank a s j)"
      unfolding e by (rule sum_same) (simp add: slot_rank_def lk th1)
    then show ?thesis
      unfolding potential_def using b Cons by (simp add: e)
  next
    case Ready
    have e: "driver_step s = s\<lparr>dpc := InReady 0 1, script := cs\<rparr>"
      using b Cons Ready by (simp add: driver_step_def)
    have "(\<Sum>j<N. slot_rank a (driver_step s) j) = (\<Sum>j<N. slot_rank a s j)"
      unfolding e by (rule sum_same) (simp add: slot_rank_def)
    then show ?thesis
      unfolding potential_def using b Cons by (simp add: e)
  next
    case Synchronize
    have e: "driver_step s = s\<lparr>dpc := InSynchronize 0 1, script := cs\<rparr>"
      using b Cons Synchronize by (simp add: driver_step_def)
    have "(\<Sum>j<N. slot_rank a (driver_step s) j) = (\<Sum>j<N. slot_rank a s j)"
      unfolding e by (rule sum_same) (simp add: slot_rank_def)
    then show ?thesis
      unfolding potential_def using b Cons by (simp add: e)
  qed
qed

lemma progress_sweep_end:
  assumes e: "driver_step s = s\<lparr>dpc := Between, script := script s\<rparr>"
    and d: "dpc s = InReady i t \<or> dpc s = InSynchronize i t" and le: "i \<le> int N"
  shows "potential a N (driver_step s) < potential a N s"
proof -
  have "(\<Sum>j<N. slot_rank a (driver_step s) j) = (\<Sum>j<N. slot_rank a s j)"
    unfolding e by (rule sum_same) (simp add: slot_rank_def)
  moreover have "driver_rank N Between (script s) < driver_rank N (dpc s) (script s)"
    using d le by auto
  ultimately show ?thesis
    unfolding potential_def by (simp add: e)
qed

lemma progress_sweep_cas:
  assumes sh: "shape (proc s) a N" and k: "nat i < N" "0 \<le> i"
    and e: "driver_step s = s\<lparr>proc := set_lock (proc s) (a, nat i) v, dpc := d'\<rparr>"
    and d: "(dpc s = InReady i t \<and> d' = InReady (i + 1) 1)
        \<or> (dpc s = InSynchronize i t \<and> d' = InSynchronize (i + 1) 1)"
    and r: "rank (Some v) (snd (threads (proc s) ! nat i)) \<le> slot_rank a s (nat i) + 3"
  shows "potential a N (driver_step s) < potential a N s"
proof -
  let ?k = "nat i" and ?s' = "driver_step s"
  have o: "slot_rank a ?s' j = slot_rank a s j" if "j < N" "j \<noteq> ?k" for j
    unfolding e using lock_at_set_lock [OF sh k(1), of v "(a, j)"] that
    by (simp add: slot_rank_def)
  have n: "slot_rank a ?s' ?k = rank (Some v) (snd (threads (proc s) ! ?k))"
    unfolding e using lock_at_set_lock [OF sh k(1), of v "(a, ?k)"]
    by (simp add: slot_rank_def)
  have "(\<Sum>j<N. slot_rank a ?s' j) + slot_rank a s ?k =
      (\<Sum>j<N. slot_rank a s j) + slot_rank a ?s' ?k"
    by (rule sum_change [OF k(1) o])
  then have s: "(\<Sum>j<N. slot_rank a ?s' j) \<le> (\<Sum>j<N. slot_rank a s j) + 3"
    using n r by simp
  have n1: "nat (i + 1) = Suc ?k" using k(2) by simp
  have "Suc (driver_rank N d' (script s)) = driver_rank N (dpc s) (script s)"
    using d k(1) n1 by auto
  moreover have "dpc ?s' = d'" "script ?s' = script s" unfolding e by simp_all
  ultimately show ?thesis
    unfolding potential_def using s by simp
qed

lemma progress:
  assumes inv: "round_inv a N Ts s" and nf: "\<not> finished s"
  shows "\<exists>t. potential a N (step t s) < potential a N s"
proof -
  let ?p = "proc s"
  have sh: "shape ?p a N" and fl: "fault s = None" using inv by (simp_all add: round_inv_def)
  show ?thesis
  proof (cases "dpc s")
    case Between
    with nf fl have "script s \<noteq> []" by (simp add: finished_def)
    then have "potential a N (step Driver s) < potential a N s"
      using progress_Between [OF inv Between] fl by simp
    then show ?thesis ..
  next
    case (InReady i t)
    have df: "0 \<le> i" "i \<le> int N" "script s = [Synchronize]"
      using inv InReady by (simp_all add: round_inv_def)
    have "potential a N (driver_step s) < potential a N s"
    proof (cases "i < int N")
      case False
      have e: "driver_step s = s\<lparr>dpc := Between, script := script s\<rparr>"
        using InReady sweep_turn_end [OF sh False, of IDLE READY t]
        by (simp add: driver_step_def ready_def)
      show ?thesis using progress_sweep_end [OF e _ df(2)] InReady by simp
    next
      case True
      let ?k = "nat i"
      have k: "?k < N" using True df(1) by simp
      obtain g where g: "at_stage a Ts s ?k g" "expected N (dpc s) (script s) ?k g"
        using inv k by (auto simp: round_inv_def)
      have g0: "g = 0" using g(2) InReady by (simp add: expected_def)
      have st: "lock_at ?p (a, ?k) = Some IDLE"
        using g(1) g0 by (simp_all add: at_stage_def stage_def)
      have e: "driver_step s = s\<lparr>proc := set_lock ?p (a, ?k) READY, dpc := InReady (i + 1) 1\<rparr>"
        using InReady sweep_turn_shape [OF sh df(1) True st, of IDLE READY t]
        by (simp add: driver_step_def ready_def)
      show ?thesis
        using InReady by (intro progress_sweep_cas [OF sh k df(1) e]) (simp_all add: rank_def)
    qed
    then have "potential a N (step Driver s) < potential a N s" using fl by simp
    then show ?thesis ..
  next
    case (InSynchronize i t)
    have df: "0 \<le> i" "i \<le> int N" "script s = []"
      using inv InSynchronize by (simp_all add: round_inv_def)
    show ?thesis
    proof (cases "i < int N")
      case False
      have e: "driver_step s = s\<lparr>dpc := Between, script := script s\<rparr>"
        using InSynchronize sweep_turn_end [OF sh False, of DONE IDLE t]
        by (simp add: driver_step_def synchronize_def)
      have "potential a N (step Driver s) < potential a N s"
        using progress_sweep_end [OF e _ df(2)] InSynchronize fl by simp
      then show ?thesis ..
    next
      case True
      let ?k = "nat i"
      have k: "?k < N" using True df(1) by simp
      obtain g where g: "at_stage a Ts s ?k g" "expected N (dpc s) (script s) ?k g"
        using inv k by (auto simp: round_inv_def)
      have g14: "1 \<le> g" "g \<le> 4" using g(2) InSynchronize k by (simp_all add: expected_def)
      have stg: "stage g (lock_at ?p (a, ?k)) (snd (threads ?p ! ?k)) (slot_calls s (a, ?k))
          ((a, ?k), Ts ! ?k)"
        using g(1) by (simp add: at_stage_def)
      show ?thesis
      proof (cases "g = 4")
        case True
        with stg have l: "lock_at ?p (a, ?k) = Some DONE"
          and w: "waits_ready (snd (threads ?p ! ?k))"
          by (simp_all add: stage_def)
        have e: "driver_step s =
            s\<lparr>proc := set_lock ?p (a, ?k) IDLE, dpc := InSynchronize (i + 1) 1\<rparr>"
          using InSynchronize sweep_turn_shape [OF sh df(1) \<open>i < int N\<close> l, of DONE IDLE t]
          by (simp add: driver_step_def synchronize_def)
        have "rank (Some IDLE) (snd (threads ?p ! ?k)) = 0"
          using w by (cases "snd (threads ?p ! ?k)") (simp_all add: rank_def)
        then have "potential a N (driver_step s) < potential a N s"
          using InSynchronize by (intro progress_sweep_cas [OF sh k df(1) e]) simp_all
        then have "potential a N (step Driver s) < potential a N s" using fl by simp
        then show ?thesis ..
      next
        case False
        with g14 have "g = 1 \<or> g = 2 \<or> g = 3" by arith
        then have "potential a N (worker_step ?k s) < potential a N s"
          using progress_worker [OF inv k g(1)] df(3) by simp
        then have "potential a N (step (Worker ?k) s) < potential a N s" using fl by simp
        then show ?thesis ..
      qed
    qed
  qed
qed

lemma round_can_finish:
  assumes "round_inv a N Ts s"
  shows "\<exists>sched. finished (run sched s)"
  using assms
proof (induction "potential a N s" arbitrary: s rule: less_induct)
  case less
  show ?case
  proof (cases "finished s")
    case True
    then have "finished (run [] s)" by simp
    then show ?thesis ..
  next
    case False
    obtain t where t: "potential a N (step t s) < potential a N s"
      using progress [OF less.prems False] by blast
    have "round_inv a N Ts (step t s)" by (rule round_inv_step [OF less.prems])
    then obtain sched where "finished (run sched (step t s))"
      using less.hyps [OF t] by blast
    then have "finished (run (t # sched) s)" by simp
    then show ?thesis ..
  qed
qed

lemma initial_inv:
  assumes pool: "idle_pool p a N" and at: "add_tasks ts p = Ok p'"
    and Ts: "\<forall>j<N. task_at p' (a, j) = Some (Ts ! j)" "\<forall>j<N. func (Ts ! j) \<noteq> NULL"
  shows "round_inv a N Ts (enter p (map AddTask ts @ [Ready, Synchronize]))"
proof -
  let ?s = "enter p (map AddTask ts @ [Ready, Synchronize])"
  have f: "proc ?s = p" "dpc ?s = Between" "script ?s = map AddTask ts @ [Ready, Synchronize]"
    "calls ?s = []" "fault ?s = None"
    by (simp_all add: enter_def)
  have st: "\<exists>g. at_stage a Ts ?s j g \<and> expected N (dpc ?s) (script ?s) j g" if "j < N" for j
  proof -
    have "at_stage a Ts ?s j 0"
      using pool that unfolding f at_stage_def idle_pool_def stage_def slot_calls_def
      by (simp add: f)
    moreover have "expected N (dpc ?s) (script ?s) j 0"
      unfolding f by (simp add: expected_def)
    ultimately show ?thesis by blast
  qed
  have df: "driver_form N (dpc ?s) (script ?s)" unfolding f by auto
  have pe: "pending (script ?s) = ts" unfolding f by simp
  show ?thesis
    unfolding round_inv_def pe using f(1,4,5) pool at Ts df st
    by (simp add: idle_pool_def)
qed

lemma final_slots:
  assumes inv: "round_inv a N Ts s" and fin: "finished s" and j: "j < N"
  shows "lock_at (proc s) (a, j) = Some IDLE" "waits_ready (snd (threads (proc s) ! j))"
    "filter (\<lambda>c. fst c = (a, j)) (calls s) = [((a, j), Ts ! j)]"
proof -
  obtain g where g: "at_stage a Ts s j g" "expected N (dpc s) (script s) j g"
    using inv j by (auto simp: round_inv_def)
  have "g = 5" using g(2) fin j by (simp add: finished_def expected_def)
  with g(1) show "lock_at (proc s) (a, j) = Some IDLE"
    "waits_ready (snd (threads (proc s) ! j))"
    "filter (\<lambda>c. fst c = (a, j)) (calls s) = [((a, j), Ts ! j)]"
    by (simp_all add: at_stage_def stage_def slot_calls_def)
qed

lemma length_by_slots:
  fixes N :: nat and xs :: "(qref \<times> Task) list"
  assumes "\<forall>c\<in>set xs. \<exists>j<N. fst c = (a, j)"
  shows "length xs = (\<Sum>j<N. length (filter (\<lambda>c. fst c = (a, j)) xs))"
  using assms
proof (induction xs)
  case Nil
  show ?case by simp
next
  case (Cons x xs)
  then obtain j0 where j0: "j0 < N" "fst x = (a, j0)" by auto
  have "(\<Sum>j<N. length (filter (\<lambda>c. fst c = (a, j)) (x # xs))) =
      (\<Sum>j<N. (if j = j0 then 1 else 0) + length (filter (\<lambda>c. fst c = (a, j)) xs))"
    using j0(2) by (intro sum.cong) auto
  also have "\<dots> = (\<Sum>j<N. if j = j0 then 1 else 0) + (\<Sum>j<N. length (filter (\<lambda>c. fst c = (a, j)) xs))"
    by (simp add: sum.distrib)
  also have "(\<Sum>j\<in>{..<N}. if j = j0 then 1 else (0::nat)) = (if j0 \<in> {..<N} then 1 else 0)"
    by (rule sum.delta) simp
  finally show ?case using Cons j0(1) by simp
qed

lemma launched_idle_pool:
  assumes "valid_cas c" "m \<noteq> NULL"
  shows "launch_threads traps m (\<lambda>i. True) (int N) (set_cas (Some c) startup) = Ok p
    \<Longrightarrow> idle_pool p m N \<and> queue_pivot p = 0"
  using assms
  by (auto simp: launch_threads_def memset_zero_def set_cas_def startup_def idle_pool_def shape_def
      lock_at_def load_def zero_Queue_def IDLE_def)

lemma round_tasks:
  assumes pool: "idle_pool p a N"
    and piv: "queue_pivot p = int n" "n < N" and k: "length ts \<le> N"
    and sub: "\<forall>t\<in>set ts. func t \<noteq> NULL"
    and old: "\<forall>j<N. (\<forall>i<length ts. j \<noteq> (n + i) mod N) \<longrightarrow>
        (\<exists>T. task_at p (a, j) = Some T \<and> func T \<noteq> NULL)"
  shows "\<exists>p' Ts. add_tasks ts p = Ok p'
      \<and> (\<forall>j<N. task_at p' (a, j) = Some (Ts ! j)) \<and> (\<forall>j<N. func (Ts ! j) \<noteq> NULL)
      \<and> (\<forall>i<length ts. Ts ! ((n + i) mod N) = ts ! i)
      \<and> (\<forall>j<N. (\<forall>i<length ts. j \<noteq> (n + i) mod N) \<longrightarrow> task_at p (a, j) = Some (Ts ! j))"
proof -
  have sh: "shape p a N" using pool by (simp add: idle_pool_def)
  then obtain qs where qs: "heap p (queues p) = Some qs" "length qs = N"
    and q: "queues p = a" "queue_count p = int N"
    by (auto simp: shape_def)
  obtain qs' where r: "add_tasks ts p =
           Ok (p\<lparr>heap := (heap p)(queues p \<mapsto> qs'),
                 queue_pivot := int ((n + length ts) mod N)\<rparr>)"
     "length qs' = N"
     "\<forall>i<length ts. task (qs' ! ((n + i) mod N)) = ts ! i"
     "\<forall>j<N. (\<forall>i<length ts. j \<noteq> (n + i) mod N) \<longrightarrow> qs' ! j = qs ! j"
    using add_tasks_spec [OF qs q(2) piv k] by blast
  let ?p' = "p\<lparr>heap := (heap p)(queues p \<mapsto> qs'), queue_pivot := int ((n + length ts) mod N)\<rparr>"
  let ?Ts = "map task qs'"
  have t': "task_at ?p' (a, j) = Some (?Ts ! j)" if "j < N" for j
    using that r(2) q(1) by (simp add: task_at_def load_def)
  have t0: "task_at p (a, j) = Some (task (qs ! j))" if "j < N" for j
    using that qs q(1) by (simp add: task_at_def load_def)
  have sl: "?Ts ! ((n + i) mod N) = ts ! i" if "i < length ts" for i
  proof -
    have "(n + i) mod N < N" using piv(2) by simp
    then show ?thesis using r(2,3) that by simp
  qed
  have un: "task_at p (a, j) = Some (?Ts ! j)"
    if "j < N" "\<forall>i<length ts. j \<noteq> (n + i) mod N" for j
    using that r(2,4) t0 by simp
  have fn: "func (?Ts ! j) \<noteq> NULL" if j: "j < N" for j
  proof (cases "\<exists>i<length ts. j = (n + i) mod N")
    case True
    then obtain i where i: "i < length ts" "j = (n + i) mod N" by blast
    then have "?Ts ! j = ts ! i" using sl by simp
    moreover have "ts ! i \<in> set ts" using i(1) by simp
    ultimately show ?thesis using sub by auto
  next
    case False
    then have f: "\<forall>i<length ts. j \<noteq> (n + i) mod N" by blast
    then obtain T where "task_at p (a, j) = Some T" "func T \<noteq> NULL"
      using old j by blast
    then show ?thesis using un [OF j f] by simp
  qed
  show ?thesis
    using r(1) t' fn sl un by blast
qed

text \<open>
  C1, amended: take a pool of \<open>N\<close> slots at rest with a valid CAS function installed, one
  running worker for every slot and the cursor inside the pool, and \<open>k \<le> N\<close> tasks, where
  every submitted task has a function that is not null and so has the task left in every
  slot that the \<open>k\<close> calls of \<open>add_task\<close> do not write (there is no such slot when
  \<open>k = N\<close>). Then, however the driver and the workers are scheduled, the round of \<open>k\<close>
  calls of \<open>add_task\<close>, \<open>ready\<close> and \<open>synchronize\<close> never crashes; from every state it
  reaches it can run to its end; and when \<open>synchronize\<close> has returned, every lock is Idle,
  the worker of the slot that received submitted task \<open>i\<close> has made exactly one call, of
  that task, the worker of every slot not written has made exactly one call, of the task
  left there, there are \<open>N\<close> calls in all, and the pool is at rest again.
\<close>

theorem round_runs_every_slot_once:
  assumes c: "valid_cas c" "cas p = Some c"
    and pool: "idle_pool p a N"
    and piv: "queue_pivot p = int n" "n < N" and k: "length ts \<le> N"
    and sub: "\<forall>t\<in>set ts. func t \<noteq> NULL"
    and old: "\<forall>j<N. (\<forall>i<length ts. j \<noteq> (n + i) mod N) \<longrightarrow>
        (\<exists>T. task_at p (a, j) = Some T \<and> func T \<noteq> NULL)"
  shows "fault (run sched (enter p (map AddTask ts @ [Ready, Synchronize]))) = None
    \<and> (\<exists>more. finished (run more (run sched (enter p (map AddTask ts @ [Ready, Synchronize])))))
    \<and> (finished (run sched (enter p (map AddTask ts @ [Ready, Synchronize]))) \<longrightarrow>
         (\<forall>j<N. lock_at (proc (run sched (enter p (map AddTask ts @ [Ready, Synchronize])))) (a, j)
                   = Some IDLE)
       \<and> (\<forall>i<length ts.
            filter (\<lambda>x. fst x = (a, (n + i) mod N))
              (calls (run sched (enter p (map AddTask ts @ [Ready, Synchronize]))))
            = [((a, (n + i) mod N), ts ! i)])
       \<and> (\<forall>j<N. (\<forall>i<length ts. j \<noteq> (n + i) mod N) \<longrightarrow>
            (\<exists>T. task_at p (a, j) = Some T
               \<and> filter (\<lambda>x. fst x = (a, j))
                    (calls (run sched (enter p (map AddTask ts @ [Ready, Synchronize]))))
                  = [((a, j), T)]))
       \<and> length (calls (run sched (enter p (map AddTask ts @ [Ready, Synchronize])))) = N
       \<and> idle_pool (proc (run sched (enter p (map AddTask ts @ [Ready, Synchronize])))) a N)"
proof -
  let ?s = "run sched (enter p (map AddTask ts @ [Ready, Synchronize]))"
  obtain p' Ts where T: "add_tasks ts p = Ok p'"
    "\<forall>j<N. task_at p' (a, j) = Some (Ts ! j)" "\<forall>j<N. func (Ts ! j) \<noteq> NULL"
    "\<forall>i<length ts. Ts ! ((n + i) mod N) = ts ! i"
    "\<forall>j<N. (\<forall>i<length ts. j \<noteq> (n + i) mod N) \<longrightarrow> task_at p (a, j) = Some (Ts ! j)"
    using round_tasks [OF pool piv k sub old] by blast
  have inv: "round_inv a N Ts ?s"
    by (intro round_inv_run initial_inv [OF pool T(1,2,3)])
  have 1: "fault ?s = None" using inv by (simp add: round_inv_def)
  have 2: "\<exists>more. finished (run more ?s)" by (rule round_can_finish [OF inv])
  have 3: "(\<forall>j<N. lock_at (proc ?s) (a, j) = Some IDLE)
       \<and> (\<forall>i<length ts. filter (\<lambda>x. fst x = (a, (n + i) mod N)) (calls ?s)
            = [((a, (n + i) mod N), ts ! i)])
       \<and> (\<forall>j<N. (\<forall>i<length ts. j \<noteq> (n + i) mod N) \<longrightarrow>
            (\<exists>T. task_at p (a, j) = Some T
               \<and> filter (\<lambda>x. fst x = (a, j)) (calls ?s) = [((a, j), T)]))
       \<and> length (calls ?s) = N
       \<and> idle_pool (proc ?s) a N" if fin: "finished ?s"
  proof -
    note fs = final_slots [OF inv fin]
    have a: "\<forall>j<N. lock_at (proc ?s) (a, j) = Some IDLE" using fs(1) by blast
    have b: "filter (\<lambda>x. fst x = (a, (n + i) mod N)) (calls ?s) = [((a, (n + i) mod N), ts ! i)]"
      if "i < length ts" for i
    proof -
      have "(n + i) mod N < N" using piv(2) by simp
      then show ?thesis using fs(3) [of "(n + i) mod N"] T(4) that by simp
    qed
    have c: "\<exists>T. task_at p (a, j) = Some T
               \<and> filter (\<lambda>x. fst x = (a, j)) (calls ?s) = [((a, j), T)]"
      if "j < N" "\<forall>i<length ts. j \<noteq> (n + i) mod N" for j
      using fs(3) [OF that(1)] T(5) that by blast
    have "\<forall>c\<in>set (calls ?s). \<exists>j<N. fst c = (a, j)" using inv by (simp add: round_inv_def)
    then have "length (calls ?s) = (\<Sum>j<N. length (filter (\<lambda>c. fst c = (a, j)) (calls ?s)))"
      by (rule length_by_slots)
    also have "\<dots> = (\<Sum>j<N. 1)" using fs(3) by (intro sum.cong) simp_all
    finally have d: "length (calls ?s) = N" by simp
    have e: "idle_pool (proc ?s) a N"
      using inv fs(1,2) by (simp add: idle_pool_def round_inv_def)
    show ?thesis using a b c d e by blast
  qed
  show ?thesis using 1 2 3 by blast
qed

lemmas eval_defs = enter_def example_pool_def task_A_def task_B_def
      driver_step_def worker_step_def ready_def synchronize_def sweep_turn_def cas_wait_at_def
      thread_worker_def add_task_def load_def store_def lock_at_def atomic_cas_def
      IDLE_def READY_def RUNNING_def DONE_def NULL_def zero_Queue_def next_timeout_def
      wrap32_def MAX_WAIT_TIME_def

lemma example_round_finished:
  "finished (run sched0 example_round)"
  by (simp add: finished_def sched0_def example_round_def eval_defs)

lemma example_idle_pool: "idle_pool example_pool 1 2"
  by (simp add: idle_pool_def shape_def example_pool_def valid_cas_def lock_at_def load_def
      zero_Queue_def IDLE_def upt_rec less_Suc_eq numeral_2_eq_2 all_conj_distrib)

theorem round_runs_every_slot_once_witness:
  "finished (run sched0 example_round)
   \<and> fault (run sched0 example_round) = None
   \<and> lock_at (proc (run sched0 example_round)) (1, 1) = Some IDLE
   \<and> filter (\<lambda>x. fst x = (1, 1)) (calls (run sched0 example_round)) = [((1, 1), task_B)]
   \<and> length (calls (run sched0 example_round)) = 2"
proof -
  have e: "example_round = enter example_pool (map AddTask [task_A, task_B] @ [Ready, Synchronize])"
    by (simp add: example_round_def)
  have v: "valid_cas atomic_cas" by (simp add: valid_cas_def)
  have c: "cas example_pool = Some atomic_cas" by (simp add: example_pool_def)
  have piv: "queue_pivot example_pool = int 0" "(0::nat) < 2" by (simp_all add: example_pool_def)
  have k: "length [task_A, task_B] \<le> 2" by simp
  have sub: "\<forall>t\<in>set [task_A, task_B]. func t \<noteq> NULL"
    by (simp add: task_A_def task_B_def NULL_def)
  have old: "\<forall>j<2. (\<forall>i<length [task_A, task_B]. j \<noteq> (0 + i) mod 2) \<longrightarrow>
        (\<exists>T. task_at example_pool (1, j) = Some T \<and> func T \<noteq> NULL)"
  proof (intro allI impI)
    fix j :: nat
    assume j: "j < 2" and n: "\<forall>i<length [task_A, task_B]. j \<noteq> (0 + i) mod 2"
    from j n have False by (auto dest: spec [of _ j])
    then show "\<exists>T. task_at example_pool (1, j) = Some T \<and> func T \<noteq> NULL" ..
  qed
  note r = round_runs_every_slot_once [OF v c example_idle_pool piv k sub old, of sched0,
      folded e]
  have fin: "finished (run sched0 example_round)" by (rule example_round_finished)
  from r fin have f1: "fault (run sched0 example_round) = None"
    by blast
  from r fin have f2: "\<forall>j<2. lock_at (proc (run sched0 example_round)) (1, j) = Some IDLE"
    by blast
  from r fin have f3: "\<forall>i<length [task_A, task_B].
            filter (\<lambda>x. fst x = (1, (0 + i) mod 2)) (calls (run sched0 example_round))
            = [((1, (0 + i) mod 2), [task_A, task_B] ! i)]"
    by blast
  from r fin have f4: "length (calls (run sched0 example_round)) = 2"
    by blast
  from f2 have g2: "lock_at (proc (run sched0 example_round)) (1, 1) = Some IDLE" by simp
  from f3 have "filter (\<lambda>x. fst x = (1, (0 + 1) mod 2)) (calls (run sched0 example_round))
            = [((1, (0 + 1) mod 2), [task_A, task_B] ! 1)]" by simp
  then have g3: "filter (\<lambda>x. fst x = (1, 1)) (calls (run sched0 example_round)) = [((1, 1), task_B)]"
    by simp
  show ?thesis using fin f1 g2 g3 f4 by blast
qed

text \<open>
  C1 as stated does not hold: in the pool of two slots that \<open>launch_threads\<close> has just
  built, with a valid CAS function, a round that submits one task makes \<open>ready\<close> release
  the second slot too, whose task is still the zeroed one, and its worker calls a null
  function pointer.
\<close>

theorem round_with_unfilled_slot_counterexample:
  "valid_cas atomic_cas
   \<and> launch_threads True 1 (\<lambda>i. True) 2 (set_cas (Some atomic_cas) startup) = Ok example_pool
   \<and> fault (run [Driver, Driver, Driver, Driver, Driver, Worker 1, Worker 1]
        (enter example_pool [AddTask task_A, Ready, Synchronize])) = Some NullCall
   \<and> calls (run [Driver, Driver, Driver, Driver, Driver, Worker 1, Worker 1]
        (enter example_pool [AddTask task_A, Ready, Synchronize])) = []"
proof -
  have "valid_cas atomic_cas" by (simp add: valid_cas_def)
  moreover have "launch_threads True 1 (\<lambda>i. True) 2 (set_cas (Some atomic_cas) startup) = Ok example_pool"
    by (simp add: launch_threads_def memset_zero_def set_cas_def startup_def example_pool_def NULL_def
      upt_rec numeral_2_eq_2)
  moreover have "fault (run [Driver, Driver, Driver, Driver, Driver, Worker 1, Worker 1]
        (enter example_pool [AddTask task_A, Ready, Synchronize])) = Some NullCall"
    by (simp add: eval_defs)
  moreover have "calls (run [Driver, Driver, Driver, Driver, Driver, Worker 1, Worker 1]
        (enter example_pool [AddTask task_A, Ready, Synchronize])) = []"
    by (simp add: eval_defs)
  ultimately show ?thesis by blast
qed

subsection \<open>The hash wrapper\<close>

lemma hash_times_cached:
  assumes "objects st w = Some (WrapperObject rc x h)" "h \<noteq> - 1"
  shows "hash_times n H w st = Inr (replicate n h, st)"
  using assms by (induction n) (simp_all add: wrapper_hash_def)

lemma hash_times_first:
  assumes "objects st w = Some (WrapperObject rc x (- 1))" "H x \<noteq> - 1"
  shows "hash_times (Suc n) H w st =
    Inr (replicate (Suc n) (H x),
      st\<lparr>objects := (objects st)(w \<mapsto> WrapperObject rc x (H x)), hashed := hashed st @ [x]\<rparr>)"
proof -
  let ?st = "st\<lparr>objects := (objects st)(w \<mapsto> WrapperObject rc x (H x)), hashed := hashed st @ [x]\<rparr>"
  have 1: "wrapper_hash H w st = Inr (H x, ?st)"
    using assms by (simp add: wrapper_hash_def)
  have 2: "hash_times n H w ?st = Inr (replicate n (H x), ?st)"
    using assms by (intro hash_times_cached [where rc = rc and x = x]) simp_all
  show ?thesis using 1 2 by simp
qed

text \<open>
  C9 as stated does not hold: when hashing the wrapped object fails (\<open>-1\<close>), nothing is
  cached, and two calls of \<open>wrapper_hash\<close> on the wrapper hash the object twice.
\<close>

theorem wrapper_hash_failing_counterexample:
  "hashwrap_make_wrapper (Some 6) 5 example_interp =
     Inr (Some 6, \<lparr>objects = (\<lambda>a. None)(5 \<mapsto> OtherObject 2, 6 \<mapsto> WrapperObject 1 5 (- 1)),
                   hashed = []\<rparr>)
   \<and> hash_times 2 (\<lambda>v. - 1) 6
       \<lparr>objects = (\<lambda>a. None)(5 \<mapsto> OtherObject 2, 6 \<mapsto> WrapperObject 1 5 (- 1)), hashed = []\<rparr> =
     Inr ([- 1, - 1],
       \<lparr>objects = (\<lambda>a. None)(5 \<mapsto> OtherObject 2, 6 \<mapsto> WrapperObject 1 5 (- 1)),
        hashed = [5, 5]\<rparr>)"
  by (simp add: hashwrap_make_wrapper_def example_interp_def wrapper_hash_def numeral_2_eq_2
      fun_upd_twist)

text \<open>
  C9, amended: for every object \<open>v\<close> whose hash succeeds (is not \<open>-1\<close>), each of \<open>n\<close>
  calls of \<open>wrapper_hash\<close> on the wrapper returned by \<open>hashwrap_make_wrapper\<close> gives the
  hash of \<open>v\<close>, and over all these calls the wrapped object is hashed at most once.
\<close>

theorem wrapper_hash_cached:
  assumes "py_hash H v st = Inr (h, st')" "h \<noteq> - 1"
    and "fresh st alloc" "hashwrap_make_wrapper alloc v st = Inr (Some w, st1)"
  shows "\<exists>st2. hash_times n H w st1 = Inr (replicate n h, st2)
      \<and> (hashed st2 = hashed st1 \<or> (\<exists>x. hashed st2 = hashed st1 @ [x]))"
proof (cases n)
  case 0
  then show ?thesis by simp
next
  case (Suc k)
  show ?thesis
  proof (cases "objects st v")
    case None
    with assms show ?thesis by (simp add: py_hash_def)
  next
    case (Some ob)
    show ?thesis
    proof (cases ob)
      case (OtherObject rc)
      with Some assms have hv: "h = H v"
        by (auto simp: py_hash_def)
      from OtherObject Some assms have va: "v \<noteq> w"
        and st1: "st1 = st\<lparr>objects := (objects st)(w \<mapsto> WrapperObject 1 v (- 1), v \<mapsto> OtherObject (rc + 1))\<rparr>"
        by (auto simp: hashwrap_make_wrapper_def fresh_def split: option.splits)
      have o1: "objects st1 w = Some (WrapperObject 1 v (- 1))"
        using st1 va by simp
      show ?thesis
        using hash_times_first [OF o1, of H k] hv assms(2) Suc by simp
    next
      case (WrapperObject rc x hc)
      with Some assms have w: "w = v"
        and st1: "st1 = st\<lparr>objects := (objects st)(v \<mapsto> WrapperObject (rc + 1) x hc)\<rparr>"
        by (auto simp: hashwrap_make_wrapper_def)
      have o1: "objects st1 w = Some (WrapperObject (rc + 1) x hc)"
        using st1 w by simp
      show ?thesis
      proof (cases "hc = - 1")
        case True
        with WrapperObject Some assms have hv: "h = H x"
          by (auto simp: py_hash_def wrapper_hash_def)
        show ?thesis
          using hash_times_first [of st1 w "rc + 1" x H k] o1 True hv assms(2) Suc by simp
      next
        case False
        with WrapperObject Some assms have hv: "h = hc"
          by (auto simp: py_hash_def wrapper_hash_def)
        show ?thesis
          using hash_times_cached [of st1 w "rc + 1" x hc n H] o1 False hv by simp
      qed
    qed
  qed
qed

theorem wrapper_hash_cached_witness:
  "\<exists>st2. hash_times 3 (\<lambda>v. 42) 6
       \<lparr>objects = (\<lambda>a. None)(5 \<mapsto> OtherObject 2, 6 \<mapsto> WrapperObject 1 5 (- 1)), hashed = []\<rparr>
     = Inr ([42, 42, 42], st2) \<and> hashed st2 = [5]"
proof -
  have 1: "py_hash (\<lambda>v. 42) 5 example_interp = Inr (42, example_interp)"
    by (simp add: py_hash_def example_interp_def)
  have 2: "fresh example_interp (Some 6)"
    by (simp add: fresh_def example_interp_def)
  have 3: "hashwrap_make_wrapper (Some 6) 5 example_interp =
     Inr (Some 6, \<lparr>objects = (\<lambda>a. None)(5 \<mapsto> OtherObject 2, 6 \<mapsto> WrapperObject 1 5 (- 1)),
                   hashed = []\<rparr>)"
    by (simp add: hashwrap_make_wrapper_def example_interp_def fun_upd_twist)
  have "hash_times (Suc (Suc (Suc 0))) (\<lambda>v. 42) 6
       \<lparr>objects = (\<lambda>a. None)(5 \<mapsto> OtherObject 2, 6 \<mapsto> WrapperObject 1 5 (- 1)), hashed = []\<rparr>
     = Inr ([42, 42, 42], \<lparr>objects = (\<lambda>a. None)(5 \<mapsto> OtherObject 2, 6 \<mapsto> WrapperObject 1 5 42), hashed = [5]\<rparr>)"
    by (simp add: wrapper_hash_def)
  then show ?thesis
    using wrapper_hash_cached [OF 1 _ 2 3, of 3] by (simp add: numeral_3_eq_3)
qed

lemma no_nesting_incref:
  assumes "no_nesting st" "objects st v = Some (WrapperObject rc x h)"
  shows "no_nesting (st\<lparr>objects := (objects st)(v \<mapsto> WrapperObject (rc + 1) x h)\<rparr>)"
  unfolding no_nesting_def
proof (intro allI impI)
  fix a rc' x' h'
  let ?st1 = "st\<lparr>objects := (objects st)(v \<mapsto> WrapperObject (rc + 1) x h)\<rparr>"
  assume o: "objects ?st1 a = Some (WrapperObject rc' x' h')"
  have "\<exists>r. objects st a = Some (WrapperObject r x' h')"
    using o assms(2) by (cases "a = v") auto
  then obtain r' where "objects st x' = Some (OtherObject r')"
    using assms(1) unfolding no_nesting_def by blast
  moreover from this have "x' \<noteq> v" using assms(2) by auto
  ultimately show "\<exists>r. objects ?st1 x' = Some (OtherObject r)" by simp
qed

lemma no_nesting_new:
  assumes "no_nesting st" "objects st v = Some (OtherObject rc)" "objects st w = None"
  shows "no_nesting (st\<lparr>objects := (objects st)(w \<mapsto> WrapperObject 1 v (- 1),
                                               v \<mapsto> OtherObject (rc + 1))\<rparr>)"
  unfolding no_nesting_def
proof (intro allI impI)
  fix a rc' x' h'
  let ?st1 = "st\<lparr>objects := (objects st)(w \<mapsto> WrapperObject 1 v (- 1), v \<mapsto> OtherObject (rc + 1))\<rparr>"
  assume o: "objects ?st1 a = Some (WrapperObject rc' x' h')"
  have vw: "v \<noteq> w" using assms by auto
  have av: "a \<noteq> v" using o by auto
  show "\<exists>r. objects ?st1 x' = Some (OtherObject r)"
  proof (cases "a = w")
    case True
    with o vw have "x' = v" by simp
    then show ?thesis by simp
  next
    case False
    with o av have "objects st a = Some (WrapperObject rc' x' h')" by simp
    then obtain r' where r: "objects st x' = Some (OtherObject r')"
      using assms(1) unfolding no_nesting_def by blast
    then have "x' \<noteq> w" using assms(3) by auto
    with r show ?thesis by (cases "x' = v") simp_all
  qed
qed

text \<open>
  C10: the wrapper \<open>w\<close> that \<open>hashwrap_make_wrapper\<close> returns for any object is a wrapper;
  given \<open>w\<close>, \<open>hashwrap_make_wrapper\<close> returns \<open>w\<close> itself, allocating nothing and only
  counting one more reference to it; and no wrapper of a wrapper comes into being.
\<close>

theorem wrap_idempotent:
  assumes "fresh st alloc" "hashwrap_make_wrapper alloc v st = Inr (Some w, st1)"
  shows "WRAPPER_CHECK st1 w
    \<and> (\<exists>rc x h. objects st1 w = Some (WrapperObject rc x h)
         \<and> hashwrap_make_wrapper alloc' w st1 =
             Inr (Some w, st1\<lparr>objects := (objects st1)(w \<mapsto> WrapperObject (rc + 1) x h)\<rparr>))
    \<and> (no_nesting st \<longrightarrow> no_nesting st1)"
proof -
  obtain ob where ob: "objects st v = Some ob"
    using assms by (cases "objects st v") (auto simp: hashwrap_make_wrapper_def)
  show ?thesis
  proof (cases ob)
    case (WrapperObject rc x h)
    with ob assms have w: "w = v"
      and st1: "st1 = st\<lparr>objects := (objects st)(v \<mapsto> WrapperObject (rc + 1) x h)\<rparr>"
      by (auto simp: hashwrap_make_wrapper_def)
    have n: "no_nesting st1" if "no_nesting st"
      unfolding st1 using that ob WrapperObject by (intro no_nesting_incref) simp_all
    show ?thesis
      using w st1 n by (simp add: WRAPPER_CHECK_def hashwrap_make_wrapper_def)
  next
    case (OtherObject rc)
    with ob assms have va: "v \<noteq> w" and f: "objects st w = None"
      and st1: "st1 = st\<lparr>objects := (objects st)(w \<mapsto> WrapperObject 1 v (- 1), v \<mapsto> OtherObject (rc + 1))\<rparr>"
      by (auto simp: hashwrap_make_wrapper_def fresh_def split: option.splits)
    have n: "no_nesting st1" if "no_nesting st"
      unfolding st1 using that ob OtherObject f by (intro no_nesting_new) simp_all
    show ?thesis
      using va st1 n by (simp add: WRAPPER_CHECK_def hashwrap_make_wrapper_def)
  qed
qed

theorem wrap_idempotent_witness:
  "hashwrap_make_wrapper None 6
     \<lparr>objects = (\<lambda>a. None)(5 \<mapsto> OtherObject 2, 6 \<mapsto> WrapperObject 1 5 (- 1)), hashed = []\<rparr>
   = Inr (Some 6,
     \<lparr>objects = (\<lambda>a. None)(5 \<mapsto> OtherObject 2, 6 \<mapsto> WrapperObject 2 5 (- 1)), hashed = []\<rparr>)"
proof -
  have 2: "fresh example_interp (Some 6)"
    by (simp add: fresh_def example_interp_def)
  have 3: "hashwrap_make_wrapper (Some 6) 5 example_interp =
     Inr (Some 6, \<lparr>objects = (\<lambda>a. None)(5 \<mapsto> OtherObject 2, 6 \<mapsto> WrapperObject 1 5 (- 1)),
                   hashed = []\<rparr>)"
    by (simp add: hashwrap_make_wrapper_def example_interp_def fun_upd_twist)
  show ?thesis
    using wrap_idempotent [OF 2 3, of None] by auto
qed

end
